theory Spec2Isabelle
  imports Main "HOL-Library.AList"
begin

section \<open>JavaScript values and objects\<close>

text \<open>
  Values that flow through the library: request parts, handler results, literal values of
  schemas and the OpenAPI fragments that the generator builds. Numbers are integers here
  (status codes, enum members); an object is the list of its own properties in insertion
  order.
\<close>

datatype jsval =
    JUndefined
  | JNull
  | JBool bool
  | JNum int
  | JStr string
  | JArr "jsval list"
  | JObj "(string \<times> jsval) list"

type_synonym jsobject = "(string \<times> jsval) list"

text \<open>
  The property names that every plain object inherits from \<open>Object.prototype\<close>. A read
  \<open>obj[k]\<close> of a plain object sees them when \<open>obj\<close> has no own property \<open>k\<close>, and every
  one of them is truthy.
\<close>

definition object_prototype_keys :: "string list" where
  "object_prototype_keys =
     [''constructor'', ''__defineGetter__'', ''__defineSetter__'', ''hasOwnProperty'',
      ''__lookupGetter__'', ''__lookupSetter__'', ''isPrototypeOf'',
      ''propertyIsEnumerable'', ''toString'', ''valueOf'', ''__proto__'',
      ''toLocaleString'']"

definition own_keys :: "('k \<times> 'v) list \<Rightarrow> 'k set" where
  "own_keys obj = fst ` set obj"

text \<open>
  \<open>js_has inh obj k\<close> is the truthiness of \<open>obj[k]\<close> for an object whose own values are
  all objects: the key is an own property, or one of the names \<open>inh\<close> visible through the
  prototype chain.
\<close>

definition js_has :: "string list \<Rightarrow> (string \<times> 'v) list \<Rightarrow> string \<Rightarrow> bool" where
  "js_has inh obj k \<longleftrightarrow> k \<in> own_keys obj \<or> k \<in> set inh"

text \<open>
  \<open>obj[k] = v\<close>: an existing own property keeps its place, a new one goes last. The
  name \<open>__proto__\<close> is the prototype accessor: assigning an object to it replaces the
  prototype and creates no own property.
\<close>

definition js_set :: "string \<Rightarrow> 'v \<Rightarrow> (string \<times> 'v) list \<Rightarrow> (string \<times> 'v) list" where
  "js_set k v obj = (if k = ''__proto__'' then obj else AList.update k v obj)"

fun set_prop :: "string \<Rightarrow> jsval \<Rightarrow> jsval \<Rightarrow> jsval" where
  "set_prop k v (JObj kvs) = JObj (js_set k v kvs)"
| "set_prop k v other = other"

text \<open>Truthiness of an optional string: \<open>undefined\<close> and the empty string are falsy.\<close>

fun truthy_str :: "string option \<Rightarrow> bool" where
  "truthy_str None = False"
| "truthy_str (Some s) = (s \<noteq> [])"

section \<open>Schemas of the validation library\<close>

text \<open>
  A schema is a node with its \<open>_def\<close> (the type tag and what it wraps), the
  \<open>_def.description\<close> and the name that \<open>withSchemaName\<close> stores in \<open>_openApi.name\<close>.
  \<open>ZodObject\<close> holds \<open>Object.entries(shape)\<close> and \<open>ZodNativeEnum\<close> holds
  \<open>Object.values(def.values)\<close> (\<open>None\<close> when \<open>def.values\<close> is undefined), both in the
  order in which the engine enumerates them; \<open>ZodLiteral\<close> holds \<open>def.value\<close>.
  \<open>ZodOther t\<close> stands for every type tag the converter has no case for (dates, tuples,
  records, intersections, ...), also for a missing one.
\<close>

datatype zod_def =
    ZodString
  | ZodNumber
  | ZodBoolean
  | ZodArray zod
  | ZodObject "(string \<times> zod) list"
  | ZodUnion "zod list"
  | ZodLiteral jsval
  | ZodEnum "string list"
  | ZodNativeEnum "jsval list option"
  | ZodOptional zod
  | ZodNullable zod
  | ZodDefault zod
  | ZodEffects zod
  | ZodOther string
and zod = Zod (z_def: zod_def) (z_description: "string option") (z_openApi_name: "string option")

text \<open>\<open>withSchemaName\<close>: stores the name on the schema object and returns it.\<close>

fun withSchemaName :: "zod \<Rightarrow> string \<Rightarrow> zod" where
  "withSchemaName (Zod d descr nm) name = Zod d descr (Some name)"

record unwrapped =
  u_schema :: zod
  u_isNullable :: bool
  u_isOptional :: bool
  u_description :: "string option"
  u_openApiName :: "string option"

text \<open>\<open>if (!x) x = y\<close> on optional strings.\<close>

definition or_else :: "string option \<Rightarrow> string option \<Rightarrow> string option" where
  "or_else x y = (if truthy_str x then x else y)"

text \<open>The loop of \<open>unwrapZodType\<close>, one equation per \<open>case\<close> of its \<open>switch\<close>.\<close>

fun unwrap_loop :: "zod \<Rightarrow> bool \<Rightarrow> bool \<Rightarrow> string option \<Rightarrow> string option \<Rightarrow> unwrapped" where
  "unwrap_loop (Zod (ZodOptional inner) d n) isNullable isOptional description openApiName =
     unwrap_loop inner isNullable True
       (or_else description (z_description inner)) (or_else openApiName (z_openApi_name inner))"
| "unwrap_loop (Zod (ZodNullable inner) d n) isNullable isOptional description openApiName =
     unwrap_loop inner True isOptional
       (or_else description (z_description inner)) (or_else openApiName (z_openApi_name inner))"
| "unwrap_loop (Zod (ZodDefault inner) d n) isNullable isOptional description openApiName =
     unwrap_loop inner isNullable isOptional
       (or_else description (z_description inner)) (or_else openApiName (z_openApi_name inner))"
| "unwrap_loop (Zod (ZodEffects inner) d n) isNullable isOptional description openApiName =
     unwrap_loop inner isNullable isOptional
       (or_else description (z_description inner)) (or_else openApiName (z_openApi_name inner))"
| "unwrap_loop current isNullable isOptional description openApiName =
     \<lparr>u_schema = current, u_isNullable = isNullable, u_isOptional = isOptional,
      u_description = description, u_openApiName = openApiName\<rparr>"

definition unwrapZodType :: "zod \<Rightarrow> unwrapped" where
  "unwrapZodType schema =
     unwrap_loop schema False False (z_description schema) (z_openApi_name schema)"

section \<open>Schema-to-document converter\<close>

text \<open>
  The three places that copy the description and the nullable flag onto a fragment
  (the \<open>$ref\<close> object, each property of an object, the result of the \<open>switch\<close>) run
  the same two statements: \<open>if (description) r.description = description\<close> and
  \<open>if (isNullable) r.nullable = true\<close>.
\<close>

definition decorate :: "string option \<Rightarrow> bool \<Rightarrow> jsval \<Rightarrow> jsval" where
  "decorate description isNullable result =
     (let r = (if truthy_str description
               then set_prop ''description'' (JStr (case description of Some d \<Rightarrow> d | None \<Rightarrow> [])) result
               else result)
      in if isNullable then set_prop ''nullable'' (JBool True) r else r)"

fun is_string_or_number :: "jsval \<Rightarrow> bool" where
  "is_string_or_number (JStr s) = True"
| "is_string_or_number (JNum n) = True"
| "is_string_or_number v = False"

text \<open>\<open>xs.map(f)\<close> where each call of \<open>f\<close> may change the state that the next one sees.\<close>

fun map_state :: "('a \<Rightarrow> 's \<Rightarrow> 'b \<times> 's) \<Rightarrow> 'a list \<Rightarrow> 's \<Rightarrow> 'b list \<times> 's" where
  "map_state f [] s = ([], s)"
| "map_state f (x # xs) s =
     (let (y, s1) = f x s; (ys, s2) = map_state f xs s1 in (y # ys, s2))"

lemma map_state_cong [fundef_cong]:
  "xs = ys \<Longrightarrow> s = t \<Longrightarrow> (\<And>x s. x \<in> set ys \<Longrightarrow> f x s = g x s)
   \<Longrightarrow> map_state f xs s = map_state g ys t"
proof (induction ys arbitrary: xs s t)
  case Nil then show ?case by simp
next
  case (Cons y ys)
  then show ?case by (auto split: prod.splits)
qed

text \<open>
  An optional name read for its truthiness: \<open>undefined\<close> and the empty string both count as
  no name.
\<close>

definition name_of :: "string option \<Rightarrow> string" where
  "name_of n = (case n of Some s \<Rightarrow> s | None \<Rightarrow> [])"

text \<open>
  The \<open>for\<close> loop of the \<open>ZodObject\<close> case over \<open>Object.entries(shape)\<close>. Its state is
  the \<open>properties\<close> object, the \<open>required\<close> array and the component table; \<open>conv\<close> is
  the recursive call \<open>zodToOpenApiSchema(_, context)\<close>.
\<close>

fun convert_shape ::
  "(zod \<Rightarrow> jsobject \<Rightarrow> jsval \<times> jsobject) \<Rightarrow> (string \<times> zod) list
   \<Rightarrow> jsobject \<times> string list \<times> jsobject \<Rightarrow> jsobject \<times> string list \<times> jsobject" where
  "convert_shape conv [] acc = acc"
| "convert_shape conv ((key, val) # rest) (properties, required, schemas) =
     (let unwrappedProp = unwrapZodType val;
          (propSchema, schemas1) = conv (u_schema unwrappedProp) schemas;
          propSchema1 = decorate (u_description unwrappedProp) (u_isNullable unwrappedProp) propSchema
      in convert_shape conv rest
           (js_set key propSchema1 properties,
            (if \<not> u_isOptional unwrappedProp then required @ [key] else required),
            schemas1))"

lemma convert_shape_cong_same:
  assumes "\<And>k v st. (k, v) \<in> set shape
             \<Longrightarrow> conv (u_schema (unwrapZodType v)) st = conv' (u_schema (unwrapZodType v)) st"
  shows "convert_shape conv shape acc = convert_shape conv' shape acc"
  using assms
proof (induction shape arbitrary: acc)
  case Nil
  then show ?case by simp
next
  case (Cons kv shape)
  obtain key val where kv: "kv = (key, val)" by (cases kv)
  obtain p r s where acc: "acc = (p, r, s)" by (cases acc)
  have head: "conv (u_schema (unwrapZodType val)) s = conv' (u_schema (unwrapZodType val)) s"
    using Cons.prems [of key val s] kv by simp
  have tail: "convert_shape conv shape a = convert_shape conv' shape a" for a
  proof (rule Cons.IH)
    fix k v st
    assume "(k, v) \<in> set shape"
    then show "conv (u_schema (unwrapZodType v)) st = conv' (u_schema (unwrapZodType v)) st"
      using Cons.prems [of k v st] by simp
  qed
  show ?case
    unfolding kv acc by (simp add: head tail Let_def split: prod.splits)
qed

lemma convert_shape_cong [fundef_cong]:
  "shape = shape' \<Longrightarrow> acc = acc'
   \<Longrightarrow> (\<And>k v st. (k, v) \<in> set shape'
          \<Longrightarrow> conv (u_schema (unwrapZodType v)) st = conv' (u_schema (unwrapZodType v)) st)
   \<Longrightarrow> convert_shape conv shape acc = convert_shape conv' shape' acc'"
  using convert_shape_cong_same [of shape' conv conv' acc'] by simp

text \<open>
  \<open>zodToOpenApiSchema(schema, context, opts)\<close>. The one context object of a generation is
  shared and mutated by all conversions, so its table \<open>context.components.schemas\<close> is
  passed in and returned; \<open>context\<close> tells whether the call has a context argument and
  \<open>asComponent\<close> is \<open>opts?.asComponent\<close>. \<open>inh\<close> are the property names that the table, a
  plain object, inherits: \<open>!schemas[name]\<close> is false for them as for its own keys.
\<close>

function zodToOpenApiSchema ::
  "string list \<Rightarrow> zod \<Rightarrow> bool \<Rightarrow> bool \<Rightarrow> jsobject \<Rightarrow> jsval \<times> jsobject" where
  "zodToOpenApiSchema inh schema context asComponent schemas =
     (let unwrapped = unwrapZodType schema;
          baseSchema = u_schema unwrapped;
          isNullable = u_isNullable unwrapped;
          description = u_description unwrapped;
          effectiveName = name_of (u_openApiName unwrapped)
      in if context \<and> effectiveName \<noteq> [] \<and> \<not> asComponent then
           (let schemas' =
                  (if js_has inh schemas effectiveName then schemas
                   else (let (component, schemas1) = zodToOpenApiSchema inh schema context True schemas
                         in js_set effectiveName component schemas1))
            in (decorate description isNullable
                  (JObj [(''$ref'', JStr (''#/components/schemas/'' @ effectiveName))]),
                schemas'))
         else
           (case z_def baseSchema of
              ZodString \<Rightarrow> (decorate description isNullable (JObj [(''type'', JStr ''string'')]), schemas)
            | ZodNumber \<Rightarrow> (decorate description isNullable (JObj [(''type'', JStr ''number'')]), schemas)
            | ZodBoolean \<Rightarrow> (decorate description isNullable (JObj [(''type'', JStr ''boolean'')]), schemas)
            | ZodArray t \<Rightarrow>
                (let (items, schemas1) = zodToOpenApiSchema inh t context False schemas
                 in (decorate description isNullable
                       (JObj [(''type'', JStr ''array''), (''items'', items)]), schemas1))
            | ZodObject shape \<Rightarrow>
                (let (properties, required, schemas1) =
                       convert_shape (\<lambda>s st. zodToOpenApiSchema inh s context False st)
                         shape ([], [], schemas)
                 in (decorate description isNullable
                       (JObj ([(''type'', JStr ''object''), (''properties'', JObj properties)]
                              @ (if required \<noteq> [] then [(''required'', JArr (map JStr required))] else []))),
                     schemas1))
            | ZodUnion options \<Rightarrow>
                (let (oneOf, schemas1) =
                       map_state (\<lambda>s st. zodToOpenApiSchema inh s context False st) options schemas
                 in (decorate description isNullable (JObj [(''oneOf'', JArr oneOf)]), schemas1))
            | ZodLiteral v \<Rightarrow> (decorate description isNullable (JObj [(''enum'', JArr [v])]), schemas)
            | ZodEnum values \<Rightarrow>
                (decorate description isNullable
                   (JObj [(''type'', JStr ''string''), (''enum'', JArr (map JStr values))]), schemas)
            | ZodNativeEnum values \<Rightarrow>
                (let rawValues = (case values of Some vs \<Rightarrow> vs | None \<Rightarrow> []);
                     enumValues = filter is_string_or_number rawValues;
                     type = (case enumValues of JNum n # rest \<Rightarrow> ''number'' | _ \<Rightarrow> ''string'')
                 in (decorate description isNullable
                       (JObj [(''type'', JStr type), (''enum'', JArr enumValues)]), schemas))
            | _ \<Rightarrow> (decorate description isNullable (JObj []), schemas)))"
  by pat_completeness auto

lemma size_unwrap_loop: "size (u_schema (unwrap_loop s a b c d)) \<le> size s"
  by (induction s a b c d rule: unwrap_loop.induct) auto

lemma size_unwrapZodType: "size (u_schema (unwrapZodType s)) \<le> size s"
  by (simp add: unwrapZodType_def size_unwrap_loop)

lemma size_array_element: "z_def b = ZodArray t \<Longrightarrow> size t < size b"
  by (cases b) simp

lemma size_shape_member: "(k, v) \<in> set shape \<Longrightarrow> size v < Suc (size_list (size_prod (\<lambda>x. 0) size) shape)"
  by (induction shape) auto

lemma size_object_field: "z_def b = ZodObject shape \<Longrightarrow> (k, v) \<in> set shape \<Longrightarrow> size v < size b"
  using size_shape_member [of k v shape] by (cases b) simp

lemma size_options_member: "x \<in> set options \<Longrightarrow> size x < Suc (size_list size options)"
  by (induction options) auto

lemma size_union_option: "z_def b = ZodUnion options \<Longrightarrow> x \<in> set options \<Longrightarrow> size x < size b"
  using size_options_member [of x options] by (cases b) simp

text \<open>
  The measure of a call: twice the size of the schema, plus one while \<open>asComponent\<close> is
  not set. The call that registers a component keeps the schema and sets the flag; every
  other recursive call is on a sub-schema.
\<close>

definition call_measure :: "string list \<times> zod \<times> bool \<times> bool \<times> jsobject \<Rightarrow> nat" where
  "call_measure = (\<lambda>(inh, schema, context, asComponent, schemas).
      2 * size schema + (if asComponent then 0 else 1))"

lemma zodToOpenApiSchema_all_dom: "All zodToOpenApiSchema_dom"
proof (relation "measure call_measure", goal_cases)
  case 1
  show ?case by simp
next
  case (2 inh schema ctx asComponent schemas)
  then show ?case by (simp add: call_measure_def)
next
  case (3 inh schema ctx asComponent schemas x xa xb xc xd t)
  have "size t < size (u_schema (unwrapZodType schema))"
    using 3 by (simp add: size_array_element)
  then have "size t < size schema"
    using size_unwrapZodType [of schema] by simp
  then show ?case by (simp add: call_measure_def)
next
  case (4 inh schema ctx asComponent schemas x xa xb xc xd shape k v st)
  have "size v < size (u_schema (unwrapZodType schema))"
    using 4 size_object_field [of "u_schema (unwrapZodType schema)" shape k v] by simp
  then have "size (u_schema (unwrapZodType v)) < size schema"
    using size_unwrapZodType [of schema] size_unwrapZodType [of v] by simp
  then show ?case by (simp add: call_measure_def)
next
  case (5 inh schema ctx asComponent schemas x xa xb xc xd options xe s)
  have "size xe < size (u_schema (unwrapZodType schema))"
    using 5 size_union_option [of "u_schema (unwrapZodType schema)" options xe] by simp
  then have "size xe < size schema"
    using size_unwrapZodType [of schema] by simp
  then show ?case by (simp add: call_measure_def)
qed

termination zodToOpenApiSchema
  by (rule zodToOpenApiSchema_all_dom)

declare zodToOpenApiSchema.simps [simp del]

section \<open>Path templates\<close>

text \<open>
  \<open>path.replace(/:([^/]+)/g, '{$1}')\<close>: scanning from the left, a colon that is followed
  by at least one character other than a slash is replaced, together with the longest run
  of such characters, by that run in braces, and the scan goes on behind the run. Every
  other character is copied.
\<close>

abbreviation not_slash :: "char \<Rightarrow> bool" where
  "not_slash \<equiv> (\<lambda>c. c \<noteq> CHR ''/'')"

function expressPathToOpenApiPath :: "string \<Rightarrow> string" where
  "expressPathToOpenApiPath [] = []"
| "expressPathToOpenApiPath (c # cs) =
     (if c = CHR '':'' \<and> takeWhile not_slash cs \<noteq> []
      then ''{'' @ takeWhile not_slash cs @ ''}'' @ expressPathToOpenApiPath (dropWhile not_slash cs)
      else c # expressPathToOpenApiPath cs)"
  by pat_completeness auto
termination
  by (relation "measure length") (auto simp: length_dropWhile_le less_Suc_eq_le)

section \<open>Routes\<close>

datatype HttpMethod = GET | POST | PUT | PATCH | DELETE

fun method_name :: "HttpMethod \<Rightarrow> string" where
  "method_name GET = ''get''"
| "method_name POST = ''post''"
| "method_name PUT = ''put''"
| "method_name PATCH = ''patch''"
| "method_name DELETE = ''delete''"

record RequestSchemas =
  rs_params :: "zod option"
  rs_query :: "zod option"
  rs_body :: "zod option"
  rs_headers :: "zod option"

record RouteMeta =
  m_summary :: "string option"
  m_description :: "string option"
  m_tags :: "string list option"

text \<open>
  A route definition. \<open>r_responses\<close> is \<open>Object.entries(responses)\<close> with the status codes
  as integers; \<open>r_handler\<close> is typed where the router is modelled.
\<close>

record 'h RouteDefinition =
  r_method :: HttpMethod
  r_path :: string
  r_request :: "RequestSchemas option"
  r_responses :: "(int \<times> zod) list"
  r_meta :: "RouteMeta option"
  r_handler :: 'h

record OpenApiOptions =
  o_title :: string
  o_version :: string
  o_basePath :: "string option"
  o_description :: "string option"

record OpenApiDocument =
  d_openapi :: string
  d_info :: jsobject
  d_paths :: jsobject
  d_components :: "jsobject option"

text \<open>\<open>String(status)\<close> for an integer status code.\<close>

fun string_of_nat :: "nat \<Rightarrow> string" where
  "string_of_nat n =
     (if n < 10 then [char_of (48 + n)]
      else string_of_nat (n div 10) @ [char_of (48 + n mod 10)])"

definition string_of_int :: "int \<Rightarrow> string" where
  "string_of_int i =
     (if i < 0 then CHR ''-'' # string_of_nat (nat (- i)) else string_of_nat (nat i))"

definition opt_str :: "string option \<Rightarrow> jsval" where
  "opt_str s = (case s of Some x \<Rightarrow> JStr x | None \<Rightarrow> JUndefined)"

section \<open>Document generation\<close>

text \<open>
  \<open>req.params && req.params instanceof ZodObject\<close>, then \<open>.shape\<close>: only a schema that is
  an object at the top (not a wrapped one) contributes parameters.
\<close>

fun shape_of :: "zod option \<Rightarrow> (string \<times> zod) list option" where
  "shape_of (Some (Zod (ZodObject shape) d n)) = Some shape"
| "shape_of other = None"

text \<open>One of the three loops of \<open>buildParameters\<close>; the conversion gets no context.\<close>

definition parameter_entries :: "string \<Rightarrow> bool \<Rightarrow> zod option \<Rightarrow> jsval list" where
  "parameter_entries location req schema =
     (case shape_of schema of
        Some shape \<Rightarrow>
          map (\<lambda>(name, s).
                 JObj [(''name'', JStr name), (''in'', JStr location), (''required'', JBool req),
                       (''schema'', fst (zodToOpenApiSchema [] s False False []))])
              shape
      | None \<Rightarrow> [])"

definition buildParameters :: "RequestSchemas option \<Rightarrow> jsval" where
  "buildParameters req =
     (let params =
            (case req of
               Some r \<Rightarrow>
                 parameter_entries ''path'' True (rs_params r)
                 @ parameter_entries ''query'' False (rs_query r)
                 @ parameter_entries ''header'' False (rs_headers r)
             | None \<Rightarrow> [])
      in if params \<noteq> [] then JArr params else JUndefined)"

definition json_content :: "jsval \<Rightarrow> jsval" where
  "json_content s = JObj [(''application/json'', JObj [(''schema'', s)])]"

text \<open>
  The state of the loop of \<open>buildOpenApi\<close>: the \<open>paths\<close> object, the component table
  \<open>components.schemas\<close> that every conversion with context shares, and the property names
  that plain objects inherit at that moment.
\<close>

type_synonym build_state = "jsobject \<times> jsobject \<times> string list"

definition express_path :: "OpenApiOptions \<Rightarrow> 'h RouteDefinition \<Rightarrow> string" where
  "express_path options route =
     (case o_basePath options of
        Some b \<Rightarrow> if b \<noteq> [] then b @ r_path route else r_path route
      | None \<Rightarrow> r_path route)"

text \<open>The loop over \<open>Object.entries(route.responses)\<close>.\<close>

fun convert_responses ::
  "string list \<Rightarrow> (int \<times> zod) list \<Rightarrow> jsobject \<times> jsobject \<Rightarrow> jsobject \<times> jsobject" where
  "convert_responses inh [] acc = acc"
| "convert_responses inh ((status, schema) # rest) (responses, schemas) =
     (let (s, schemas1) = zodToOpenApiSchema inh schema True False schemas
      in convert_responses inh rest
           (js_set (string_of_int status)
              (JObj [(''description'', JStr ''Response''), (''content'', json_content s)])
              responses,
            schemas1))"

text \<open>The key under which a route is filed: its path after the base path, rewritten.\<close>

definition path_key :: "OpenApiOptions \<Rightarrow> 'h RouteDefinition \<Rightarrow> string" where
  "path_key options route = expressPathToOpenApiPath (express_path options route)"

text \<open>\<open>if (!paths[path]) paths[path] = {}\<close>\<close>

definition ensure_path_item :: "string list \<Rightarrow> string \<Rightarrow> jsobject \<Rightarrow> jsobject" where
  "ensure_path_item inh path paths =
     (if js_has inh paths path then paths else js_set path (JObj []) paths)"

text \<open>
  The request body, the parameters and the responses of a route, and the operation object
  made of them; the conversions of the body and of the responses share the component table.
\<close>

definition route_operation :: "string list \<Rightarrow> 'h RouteDefinition \<Rightarrow> jsobject \<Rightarrow> jsval \<times> jsobject" where
  "route_operation inh route schemas =
     (let bodySchema = (case r_request route of Some r \<Rightarrow> rs_body r | None \<Rightarrow> None);
          (requestBody, schemas1) =
             (case bodySchema of
                Some b \<Rightarrow>
                  (let (s, schemas1) = zodToOpenApiSchema inh b True False schemas
                   in (JObj [(''required'', JBool True), (''content'', json_content s)], schemas1))
              | None \<Rightarrow> (JUndefined, schemas));
          parameters = buildParameters (r_request route);
          (responses, schemas2) = convert_responses inh (r_responses route) ([], schemas1)
      in (JObj [(''summary'', (case r_meta route of Some m \<Rightarrow> opt_str (m_summary m) | None \<Rightarrow> JUndefined)),
                (''description'', (case r_meta route of Some m \<Rightarrow> opt_str (m_description m) | None \<Rightarrow> JUndefined)),
                (''tags'', (case r_meta route of
                              Some m \<Rightarrow> (case m_tags m of Some ts \<Rightarrow> JArr (map JStr ts) | None \<Rightarrow> JUndefined)
                            | None \<Rightarrow> JUndefined)),
                (''requestBody'', requestBody),
                (''parameters'', parameters),
                (''responses'', JObj responses)],
          schemas2))"

text \<open>
  \<open>paths[path][method] = operation\<close>. When \<open>paths\<close> has the own property \<open>path\<close>, its item
  gets the operation. Otherwise \<open>paths[path]\<close> is an inherited object and the assignment
  lands there, outside the document: on \<open>Object.prototype\<close> itself when \<open>path\<close> is
  \<open>__proto__\<close>, which makes \<open>method\<close> a name that every plain object inherits from then on.
\<close>

definition assign_operation ::
  "string \<Rightarrow> string \<Rightarrow> jsval \<Rightarrow> jsobject \<times> string list \<Rightarrow> jsobject \<times> string list" where
  "assign_operation path m operation = (\<lambda>(paths, inh).
     (case map_of paths path of
        Some item \<Rightarrow> (js_set path (set_prop m operation item) paths, inh)
      | None \<Rightarrow> (paths, if path = ''__proto__'' then List.insert m inh else inh)))"

definition route_step :: "OpenApiOptions \<Rightarrow> 'h RouteDefinition \<Rightarrow> build_state \<Rightarrow> build_state" where
  "route_step options route = (\<lambda>(paths, schemas, inh).
     (let path = path_key options route;
          m = method_name (r_method route);
          paths1 = ensure_path_item inh path paths;
          (operation, schemas2) = route_operation inh route schemas;
          (paths2, inh2) = assign_operation path m operation (paths1, inh)
      in (paths2, schemas2, inh2)))"

text \<open>
  \<open>buildOpenApi\<close> on the routes that \<open>getRoutes\<close> returned: the loop starts from an empty
  \<open>paths\<close> object and an empty component table, in an engine whose \<open>Object.prototype\<close>
  has its built-in properties; \<open>components\<close> is set when the table has an own key.
\<close>

definition build_document :: "'h RouteDefinition list \<Rightarrow> OpenApiOptions \<Rightarrow> OpenApiDocument" where
  "build_document routes options =
     (let (paths, schemas, inh) = fold (route_step options) routes ([], [], object_prototype_keys)
      in \<lparr>d_openapi = ''3.0.0'',
          d_info = [(''title'', JStr (o_title options)), (''version'', JStr (o_version options)),
                    (''description'', opt_str (o_description options))],
          d_paths = paths,
          d_components = (if schemas \<noteq> [] then Some schemas else None)\<rparr>)"

text \<open>
  The property names that plain objects inherit once \<open>buildOpenApi\<close> has processed the
  routes: those of \<open>Object.prototype\<close>, and the methods of the routes filed under
  \<open>__proto__\<close>.
\<close>

definition inherited_names :: "'h RouteDefinition list \<Rightarrow> OpenApiOptions \<Rightarrow> string list" where
  "inherited_names routes options =
     snd (snd (fold (route_step options) routes ([], [], object_prototype_keys)))"

text \<open>The schemas of a route that \<open>buildOpenApi\<close> converts with the context.\<close>

definition context_schemas :: "'h RouteDefinition \<Rightarrow> zod list" where
  "context_schemas route =
     (case r_request route of
        Some r \<Rightarrow> (case rs_body r of Some b \<Rightarrow> [b] | None \<Rightarrow> [])
      | None \<Rightarrow> [])
     @ map snd (r_responses route)"

section \<open>Router\<close>

text \<open>
  The router keeps its routes in an array that it mutates in place, and \<open>getRoutes\<close>
  hands out another array. Arrays therefore live in a store, addressed by their index;
  a router holds the address of its own array.
\<close>

type_synonym 'h heap = "'h RouteDefinition list list"

record TypedRouter =
  routes :: nat

definition new_TypedRouter :: "'h heap \<Rightarrow> TypedRouter \<times> 'h heap" where
  "new_TypedRouter h = (\<lparr>routes = length h\<rparr>, h @ [[]])"

text \<open>Any in-place mutation of the array at address \<open>a\<close>.\<close>

definition array_mutate :: "nat \<Rightarrow> ('a list \<Rightarrow> 'a list) \<Rightarrow> 'a list list \<Rightarrow> 'a list list" where
  "array_mutate a f h = h[a := f (h ! a)]"

definition TypedRouter_route :: "TypedRouter \<Rightarrow> 'h RouteDefinition \<Rightarrow> 'h heap \<Rightarrow> TypedRouter \<times> 'h heap" where
  "TypedRouter_route this d h = (this, array_mutate (routes this) (\<lambda>xs. xs @ [d]) h)"

record 'h RouteOptions =
  opt_request :: "RequestSchemas option"
  opt_responses :: "(int \<times> zod) list"
  opt_meta :: "RouteMeta option"
  opt_handler :: 'h

definition with_method :: "HttpMethod \<Rightarrow> string \<Rightarrow> 'h RouteOptions \<Rightarrow> 'h RouteDefinition" where
  "with_method m p options =
     \<lparr>r_method = m, r_path = p, r_request = opt_request options,
      r_responses = opt_responses options, r_meta = opt_meta options,
      r_handler = opt_handler options\<rparr>"

definition TypedRouter_get :: "TypedRouter \<Rightarrow> string \<Rightarrow> 'h RouteOptions \<Rightarrow> 'h heap \<Rightarrow> TypedRouter \<times> 'h heap" where
  "TypedRouter_get this p options h = TypedRouter_route this (with_method GET p options) h"

definition TypedRouter_post :: "TypedRouter \<Rightarrow> string \<Rightarrow> 'h RouteOptions \<Rightarrow> 'h heap \<Rightarrow> TypedRouter \<times> 'h heap" where
  "TypedRouter_post this p options h = TypedRouter_route this (with_method POST p options) h"

definition TypedRouter_put :: "TypedRouter \<Rightarrow> string \<Rightarrow> 'h RouteOptions \<Rightarrow> 'h heap \<Rightarrow> TypedRouter \<times> 'h heap" where
  "TypedRouter_put this p options h = TypedRouter_route this (with_method PUT p options) h"

definition TypedRouter_patch :: "TypedRouter \<Rightarrow> string \<Rightarrow> 'h RouteOptions \<Rightarrow> 'h heap \<Rightarrow> TypedRouter \<times> 'h heap" where
  "TypedRouter_patch this p options h = TypedRouter_route this (with_method PATCH p options) h"

definition TypedRouter_delete :: "TypedRouter \<Rightarrow> string \<Rightarrow> 'h RouteOptions \<Rightarrow> 'h heap \<Rightarrow> TypedRouter \<times> 'h heap" where
  "TypedRouter_delete this p options h = TypedRouter_route this (with_method DELETE p options) h"

text \<open>\<open>[...this.routes]\<close>: a new array with the same elements in the same order.\<close>

definition TypedRouter_getRoutes :: "TypedRouter \<Rightarrow> 'h heap \<Rightarrow> nat \<times> 'h heap" where
  "TypedRouter_getRoutes this h = (length h, h @ [h ! routes this])"

definition buildOpenApi ::
  "TypedRouter \<Rightarrow> OpenApiOptions \<Rightarrow> 'h heap \<Rightarrow> OpenApiDocument \<times> 'h heap" where
  "buildOpenApi typedRouter options h =
     (let (a, h1) = TypedRouter_getRoutes typedRouter h in (build_document (h1 ! a) options, h1))"

subsection \<open>The wrapped handler\<close>

text \<open>
  \<open>schema.parse\<close> belongs to the validation library: it returns the parsed value or throws.
  It is a parameter of the model, \<open>Inl\<close> being the thrown error.
\<close>

type_synonym parser = "zod \<Rightarrow> jsval \<Rightarrow> jsval + jsval"

record Request =
  req_params :: jsval
  req_query :: jsval
  req_body :: jsval
  req_headers :: jsval

record ParsedRequest =
  p_params :: jsval
  p_query :: jsval
  p_body :: jsval
  p_headers :: jsval

text \<open>
  A handler gets the request, the response (of which the model keeps the status code) and
  the parsed request; it throws (or its promise rejects) with \<open>Inl\<close>, or returns a value
  and leaves the response with a status code.
\<close>

type_synonym TypedHandler = "Request \<Rightarrow> int \<Rightarrow> ParsedRequest \<Rightarrow> jsval + (jsval \<times> int)"

text \<open>What one call of the wrapped handler does to the outside, in order.\<close>

datatype effect =
    CallHandler ParsedRequest
  | ResStatus int
  | ResJson jsval
  | CallNext "jsval option"

definition parse_field :: "parser \<Rightarrow> zod option \<Rightarrow> jsval \<Rightarrow> jsval + jsval" where
  "parse_field parse schema v = (case schema of Some s \<Rightarrow> parse s v | None \<Rightarrow> Inr v)"

definition field_schema :: "RequestSchemas option \<Rightarrow> (RequestSchemas \<Rightarrow> zod option) \<Rightarrow> zod option" where
  "field_schema req sel = (case req of Some r \<Rightarrow> sel r | None \<Rightarrow> None)"

text \<open>The object literal of \<open>parsed\<close>: its four fields are evaluated in order.\<close>

definition parse_request :: "parser \<Rightarrow> RequestSchemas option \<Rightarrow> Request \<Rightarrow> jsval + ParsedRequest" where
  "parse_request parse req r =
     (case parse_field parse (field_schema req rs_params) (req_params r) of
        Inl err \<Rightarrow> Inl err
      | Inr p \<Rightarrow>
     (case parse_field parse (field_schema req rs_query) (req_query r) of
        Inl err \<Rightarrow> Inl err
      | Inr q \<Rightarrow>
     (case parse_field parse (field_schema req rs_body) (req_body r) of
        Inl err \<Rightarrow> Inl err
      | Inr b \<Rightarrow>
     (case parse_field parse (field_schema req rs_headers) (req_headers r) of
        Inl err \<Rightarrow> Inl err
      | Inr hs \<Rightarrow> Inr \<lparr>p_params = p, p_query = q, p_body = b, p_headers = hs\<rparr>))))"

definition first2xxSchema :: "(int \<times> zod) list \<Rightarrow> zod option" where
  "first2xxSchema rs =
     (let statusCodes = sort (filter (\<lambda>n. 200 \<le> n \<and> n < 300) (map fst rs))
      in case statusCodes of first # rest \<Rightarrow> map_of rs first | [] \<Rightarrow> None)"

text \<open>\<open>a ?? b\<close> on optional schemas.\<close>

definition nullish_or :: "'a option \<Rightarrow> 'a option \<Rightarrow> 'a option" where
  "nullish_or a b = (case a of Some x \<Rightarrow> Some x | None \<Rightarrow> b)"

definition response_status :: "int \<Rightarrow> int" where
  "response_status statusCode =
     (if statusCode \<noteq> 0 \<and> 200 \<le> statusCode \<and> statusCode < 300 then statusCode else 200)"

definition response_schema :: "(int \<times> zod) list \<Rightarrow> int \<Rightarrow> zod option" where
  "response_schema rs status =
     nullish_or (map_of rs status) (nullish_or (first2xxSchema rs) (map_of rs 200))"

text \<open>What follows the handler's return inside the \<open>try\<close> block.\<close>

definition respond :: "parser \<Rightarrow> (int \<times> zod) list \<Rightarrow> jsval \<Rightarrow> int \<Rightarrow> effect list" where
  "respond parse rs result statusCode =
     (let status = response_status statusCode;
          schema = response_schema rs status
      in case schema of
           Some s \<Rightarrow>
             (case parse s result of
                Inl err \<Rightarrow> [CallNext (Some err)]
              | Inr parsedResult \<Rightarrow> [ResStatus status, ResJson parsedResult])
         | None \<Rightarrow>
             if result \<noteq> JUndefined then [ResStatus status, ResJson result]
             else [CallNext None])"

definition wrapped :: "parser \<Rightarrow> TypedHandler RouteDefinition \<Rightarrow> Request \<Rightarrow> int \<Rightarrow> effect list" where
  "wrapped parse route req statusCode =
     (case parse_request parse (r_request route) req of
        Inl err \<Rightarrow> [CallNext (Some err)]
      | Inr parsed \<Rightarrow>
          CallHandler parsed #
          (case r_handler route req statusCode parsed of
             Inl err \<Rightarrow> [CallNext (Some err)]
           | Inr (result, statusCode1) \<Rightarrow> respond parse (r_responses route) result statusCode1))"

text \<open>
  \<open>register\<close> calls \<open>app[method](path, wrapped)\<close> for each route in order; the model
  returns these calls.
\<close>

definition TypedRouter_register ::
  "parser \<Rightarrow> TypedRouter \<Rightarrow> TypedHandler heap
   \<Rightarrow> (string \<times> string \<times> (Request \<Rightarrow> int \<Rightarrow> effect list)) list \<times> TypedHandler heap" where
  "TypedRouter_register parse this h =
     (map (\<lambda>r. (method_name (r_method r), r_path r, wrapped parse r)) (h ! routes this), h)"

text \<open>The four parts of a request with their schemas, in the order in which the wrapped
  handler parses them.\<close>

definition request_stages :: "((RequestSchemas \<Rightarrow> zod option) \<times> (Request \<Rightarrow> jsval)) list" where
  "request_stages =
     [(rs_params, req_params), (rs_query, req_query), (rs_body, req_body), (rs_headers, req_headers)]"

section \<open>Path templates, as the specification words them\<close>

text \<open>
  The rewriting as the specification words it: in every segment between slashes, a colon
  followed by at least one character starts a parameter that runs to the end of the
  segment and is put in braces; everything else is kept.
\<close>

definition brace_segment :: "string \<Rightarrow> string" where
  "brace_segment seg =
     (case dropWhile (\<lambda>c. c \<noteq> CHR '':'') seg of
        [] \<Rightarrow> seg
      | c # name \<Rightarrow>
          if name = [] then seg
          else takeWhile (\<lambda>c. c \<noteq> CHR '':'') seg @ ''{'' @ name @ ''}'')"

function brace_form :: "string \<Rightarrow> string" where
  "brace_form p =
     (case dropWhile not_slash p of
        [] \<Rightarrow> brace_segment p
      | c # rest \<Rightarrow> brace_segment (takeWhile not_slash p) @ ''/'' @ brace_form rest)"
  by pat_completeness auto
termination
proof (relation "measure length", goal_cases)
  case 1
  show ?case by simp
next
  case (2 p c rest)
  have "length (dropWhile not_slash p) \<le> length p" by (rule length_dropWhile_le)
  then show ?case using 2 by simp
qed

declare brace_form.simps [simp del]

section \<open>Relations used in the statements\<close>

text \<open>\<open>table_grows st st'\<close>: every entry of the component table \<open>st\<close> is in \<open>st'\<close> with the
  same value, and \<open>st'\<close> has no name twice if \<open>st\<close> has none.\<close>

definition table_grows :: "jsobject \<Rightarrow> jsobject \<Rightarrow> bool" where
  "table_grows st st' \<longleftrightarrow>
     (\<forall>k v. map_of st k = Some v \<longrightarrow> map_of st' k = Some v)
     \<and> (distinct (map fst st) \<longrightarrow> distinct (map fst st'))"

text \<open>\<open>filed paths key m\<close>: the \<open>paths\<close> object has the own key \<open>key\<close>, whose item is an object
  with the property \<open>m\<close>. \<open>paths_ok\<close>: every item is an object and \<open>__proto__\<close> is no own key.\<close>

definition filed :: "jsobject \<Rightarrow> string \<Rightarrow> string \<Rightarrow> bool" where
  "filed paths key m \<longleftrightarrow> (\<exists>item. map_of paths key = Some (JObj item) \<and> m \<in> own_keys item)"

definition paths_ok :: "jsobject \<Rightarrow> bool" where
  "paths_ok paths \<longleftrightarrow>
     ''__proto__'' \<notin> own_keys paths \<and> (\<forall>k v. map_of paths k = Some v \<longrightarrow> (\<exists>item. v = JObj item))"

text \<open>
  The name that a conversion looks up in the component table: \<open>effectiveName\<close> of
  \<open>zodToOpenApiSchema\<close>, empty when the schema and its wrappers carry none.
\<close>

definition effective_name :: "zod \<Rightarrow> string" where
  "effective_name schema = name_of (u_openApiName (unwrapZodType schema))"

text \<open>
  The schemas on which a conversion that reaches the \<open>switch\<close> calls the converter again,
  passing its context on: the element of an array, the unwrapped schema of each field of an
  object, each option of a union.
\<close>

definition nested_calls :: "zod \<Rightarrow> zod list" where
  "nested_calls schema =
     (case z_def (u_schema (unwrapZodType schema)) of
        ZodArray t \<Rightarrow> [t]
      | ZodObject shape \<Rightarrow> map (\<lambda>(key, val). u_schema (unwrapZodType val)) shape
      | ZodUnion options \<Rightarrow> options
      | _ \<Rightarrow> [])"

lemma size_nested_calls: "x \<in> set (nested_calls s) \<Longrightarrow> size x < size s"
proof -
  assume x: "x \<in> set (nested_calls s)"
  let ?b = "u_schema (unwrapZodType s)"
  have "size x < size ?b"
  proof (cases "z_def ?b")
    case (ZodArray t)
    then show ?thesis using x by (simp add: nested_calls_def size_array_element)
  next
    case (ZodObject shape)
    then obtain k v where kv: "(k, v) \<in> set shape" and xv: "x = u_schema (unwrapZodType v)"
      using x by (auto simp: nested_calls_def)
    have "size v < size ?b" using size_object_field [OF ZodObject kv] .
    then show ?thesis using size_unwrapZodType [of v] xv by simp
  next
    case (ZodUnion options)
    then show ?thesis using x size_union_option [of ?b options x] by (simp add: nested_calls_def)
  qed (use x in \<open>simp_all add: nested_calls_def\<close>)
  then show ?thesis using size_unwrapZodType [of s] by simp
qed

text \<open>
  The use sites that a conversion with context of \<open>schema\<close> is sure to reach: the schema
  itself and, when it carries no name, the use sites of its nested calls. A schema that
  carries a name is replaced by a reference there, and what is inside it is converted only
  if the name is entered at that moment. \<open>all_sites\<close> goes on through the schemas that
  carry a name as well.
\<close>

function use_sites :: "zod \<Rightarrow> zod list" where
  "use_sites schema =
     schema # (if effective_name schema \<noteq> [] then []
               else concat (map use_sites (nested_calls schema)))"
  by pat_completeness auto

termination use_sites
  by (relation "measure size") (simp_all add: size_nested_calls)

function all_sites :: "zod \<Rightarrow> zod list" where
  "all_sites schema = schema # concat (map all_sites (nested_calls schema))"
  by pat_completeness auto

termination all_sites
  by (relation "measure size") (simp_all add: size_nested_calls)

declare use_sites.simps [simp del]
declare all_sites.simps [simp del]

text \<open>
  \<open>registered inh table s\<close>: if \<open>s\<close> carries a name that plain objects do not inherit, the
  table has an own key of that name. \<open>covered table s\<close>: every name carried by a site of
  \<open>s\<close> is an own key of the table. \<open>closed_table S table\<close>: the table covers every schema
  of \<open>S\<close> whose name it holds.
\<close>

definition registered :: "string list \<Rightarrow> jsobject \<Rightarrow> zod \<Rightarrow> bool" where
  "registered inh table s \<longleftrightarrow>
     (effective_name s \<noteq> [] \<and> effective_name s \<notin> set inh \<and> effective_name s \<noteq> ''__proto__''
        \<longrightarrow> effective_name s \<in> own_keys table)"

definition covered :: "jsobject \<Rightarrow> zod \<Rightarrow> bool" where
  "covered table s \<longleftrightarrow>
     (\<forall>b \<in> set (all_sites s). effective_name b \<noteq> [] \<longrightarrow> effective_name b \<in> own_keys table)"

definition closed_table :: "zod set \<Rightarrow> jsobject \<Rightarrow> bool" where
  "closed_table S table \<longleftrightarrow>
     (\<forall>a \<in> S. effective_name a \<noteq> [] \<and> effective_name a \<in> own_keys table \<longrightarrow> covered table a)"

text \<open>All sites of the schemas that \<open>buildOpenApi\<close> converts with the context.\<close>

definition document_sites :: "'h RouteDefinition list \<Rightarrow> zod list" where
  "document_sites defs = concat (map (\<lambda>route. concat (map all_sites (context_schemas route))) defs)"

text \<open>A route without its parameter schemas (\<open>params\<close>, \<open>query\<close>, \<open>headers\<close>).\<close>

definition without_parameters :: "'h RouteDefinition \<Rightarrow> 'h RouteDefinition" where
  "without_parameters route =
     route\<lparr>r_request :=
             map_option (\<lambda>r. r\<lparr>rs_params := None, rs_query := None, rs_headers := None\<rparr>)
               (r_request route)\<rparr>"


section \<open>Example inputs\<close>

text \<open>A parser that accepts strings for string schemas and numbers for number schemas, and
  a few routes, requests and handlers on which the theorems below are instantiated.\<close>

definition strict_parser :: parser where
  "strict_parser s v =
     (case (z_def s, v) of
        (ZodString, JStr x) \<Rightarrow> Inr v
      | (ZodNumber, JNum n) \<Rightarrow> Inr v
      | _ \<Rightarrow> Inl (JStr ''ZodError''))"

definition echo_handler :: TypedHandler where
  "echo_handler req statusCode parsed = Inr (p_body parsed, statusCode)"

definition echo_route :: "TypedHandler RouteDefinition" where
  "echo_route =
     \<lparr>r_method = POST, r_path = ''/echo'',
      r_request = Some \<lparr>rs_params = None, rs_query = None,
                         rs_body = Some (Zod ZodString None None), rs_headers = None\<rparr>,
      r_responses = [(200, Zod ZodString None None)],
      r_meta = None, r_handler = echo_handler\<rparr>"

definition bad_request :: Request where
  "bad_request = \<lparr>req_params = JObj [], req_query = JObj [], req_body = JNum 7, req_headers = JObj []\<rparr>"

definition loose_handler :: TypedHandler where
  "loose_handler req statusCode parsed = Inr (JNum 1, 404)"

definition loose_route :: "TypedHandler RouteDefinition" where
  "loose_route = echo_route\<lparr>r_request := None, r_handler := loose_handler,
                             r_responses := [(404, Zod ZodNumber None None), (201, Zod ZodString None None)]\<rparr>"

definition number_route :: "TypedHandler RouteDefinition" where
  "number_route = echo_route\<lparr>r_responses := [(200, Zod ZodNumber None None)]\<rparr>"

definition good_request :: Request where
  "good_request = bad_request\<lparr>req_body := JStr ''hello''\<rparr>"

definition good_parsed :: ParsedRequest where
  "good_parsed = \<lparr>p_params = JObj [], p_query = JObj [], p_body = JStr ''hello'', p_headers = JObj []\<rparr>"

definition created_handler :: TypedHandler where
  "created_handler req statusCode parsed = Inr (JNum 5, 204)"

definition created_route :: "TypedHandler RouteDefinition" where
  "created_route = echo_route\<lparr>r_handler := created_handler,
       r_responses := [(200, Zod ZodString None None), (201, Zod ZodNumber None None)]\<rparr>"

definition id_age_schema :: zod where
  "id_age_schema =
     Zod (ZodObject [(''id'', Zod ZodString None None),
                     (''age'', Zod (ZodOptional (Zod ZodNumber None None)) None None)]) None None"


definition nullable_date :: zod where
  "nullable_date = Zod (ZodNullable (Zod (ZodOther ''ZodDate'') None None)) None None"

definition first_router :: "TypedRouter \<times> TypedHandler heap" where
  "first_router = new_TypedRouter []"

definition example_doc_options :: OpenApiOptions where
  "example_doc_options = \<lparr>o_title = ''API'', o_version = ''1.0.0'', o_basePath = None, o_description = None\<rparr>"

definition user_id :: zod where
  "user_id = withSchemaName (Zod ZodString None None) ''UserId''"

definition user_route :: "TypedHandler RouteDefinition" where
  "user_route =
     \<lparr>r_method = GET, r_path = ''/users/:id'',
      r_request = Some \<lparr>rs_params = Some (Zod (ZodObject [(''id'', user_id)]) None None),
                         rs_query = None, rs_body = None, rs_headers = None\<rparr>,
      r_responses = [],
      r_meta = None, r_handler = echo_handler\<rparr>"

definition user_schema :: zod where
  "user_schema = withSchemaName (Zod (ZodObject [(''id'', user_id)]) None None) ''User''"

definition users_route :: "TypedHandler RouteDefinition" where
  "users_route =
     \<lparr>r_method = GET, r_path = ''/users'', r_request = None,
      r_responses = [(200, Zod (ZodArray user_schema) None None)],
      r_meta = None, r_handler = echo_handler\<rparr>"

definition inner_a :: zod where
  "inner_a = withSchemaName (Zod ZodString None None) ''A''"

definition outer_a :: zod where
  "outer_a = withSchemaName (Zod (ZodObject [(''x'', inner_a)]) None None) ''A''"

definition constructor_schema :: zod where
  "constructor_schema = withSchemaName (Zod ZodString None None) ''constructor''"

definition tagged_optional :: zod where
  "tagged_optional = withSchemaName (Zod (ZodOptional (Zod ZodString None None)) None None) ''Tag''"

definition tag_holder :: zod where
  "tag_holder = Zod (ZodObject [(''t'', tagged_optional)]) None None"

definition a_list :: zod where
  "a_list = withSchemaName (Zod (ZodArray user_id) None None) ''A''"

definition same_name_route :: "TypedHandler RouteDefinition" where
  "same_name_route =
     \<lparr>r_method = GET, r_path = ''/a'', r_request = None,
      r_responses = [(200, inner_a), (201, a_list)],
      r_meta = None, r_handler = echo_handler\<rparr>"

definition toString_route :: "TypedHandler RouteDefinition" where
  "toString_route = echo_route\<lparr>r_method := GET, r_path := ''toString'', r_request := None, r_responses := []\<rparr>"

section \<open>The wrapped handler: validation failures\<close>

text \<open>Every route of the router is registered with its wrapped handler, in order.\<close>

lemma register_installs_wrapped:
  "fst (TypedRouter_register parse this h)
     = map (\<lambda>r. (method_name (r_method r), r_path r, wrapped parse r)) (h ! routes this)"
  by (simp add: TypedRouter_register_def)

lemma parse_field_Inl:
  "parse_field parse schema v = Inl err \<longleftrightarrow> (\<exists>s. schema = Some s \<and> parse s v = Inl err)"
  by (cases schema) (simp_all add: parse_field_def)

lemma parse_request_Inl:
  "parse_request parse rs req = Inl err \<Longrightarrow>
     \<exists>(sel, part) \<in> set request_stages. \<exists>s. field_schema rs sel = Some s \<and> parse s (part req) = Inl err"
  unfolding parse_request_def request_stages_def
  by (auto simp: parse_field_Inl split: sum.splits)

lemma parse_request_fails:
  assumes "(sel, part) \<in> set request_stages"
    and "field_schema rs sel = Some s" and "parse s (part req) = Inl e"
  shows "\<exists>err. parse_request parse rs req = Inl err"
  using assms unfolding request_stages_def parse_request_def
  by (auto simp: parse_field_def split: sum.splits)

text \<open>
  C1. When one of the declared request schemas (path parameters, query, body or headers)
  rejects its part of the request, the wrapped handler does one thing: it calls \<open>next\<close>
  with the error of a rejecting schema. The handler is not called, and replacing it by any
  other handler \<open>h\<close> changes nothing.
\<close>

theorem invalid_request_never_reaches_handler:
  assumes "(sel, part) \<in> set request_stages"
    and "field_schema (r_request route) sel = Some s"
    and "parse s (part req) = Inl e"
  shows "\<exists>err. wrapped parse route req statusCode = [CallNext (Some err)]
           \<and> wrapped parse (route\<lparr>r_handler := h\<rparr>) req statusCode = [CallNext (Some err)]
           \<and> (\<exists>(sel', part') \<in> set request_stages. \<exists>s'.
                 field_schema (r_request route) sel' = Some s' \<and> parse s' (part' req) = Inl err)"
proof -
  obtain err where err: "parse_request parse (r_request route) req = Inl err"
    using parse_request_fails [of sel part "r_request route" s parse req e] assms by blast
  have "wrapped parse route req statusCode = [CallNext (Some err)]"
    and "wrapped parse (route\<lparr>r_handler := h\<rparr>) req statusCode = [CallNext (Some err)]"
    using err by (simp_all add: wrapped_def)
  with parse_request_Inl [OF err] show ?thesis by blast
qed

theorem invalid_request_witness:
  "(rs_body, req_body) \<in> set request_stages
   \<and> field_schema (r_request echo_route) rs_body = Some (Zod ZodString None None)
   \<and> strict_parser (Zod ZodString None None) (req_body bad_request) = Inl (JStr ''ZodError'')
   \<and> (\<exists>err. wrapped strict_parser echo_route bad_request 200 = [CallNext (Some err)])"
proof -
  have 1: "(rs_body, req_body) \<in> set request_stages"
    by (simp add: request_stages_def)
  have 2: "field_schema (r_request echo_route) rs_body = Some (Zod ZodString None None)"
    by (simp add: echo_route_def field_schema_def)
  have 3: "strict_parser (Zod ZodString None None) (req_body bad_request) = Inl (JStr ''ZodError'')"
    by (simp add: strict_parser_def bad_request_def)
  from invalid_request_never_reaches_handler
         [of rs_body req_body echo_route "Zod ZodString None None" strict_parser bad_request
             "JStr ''ZodError''" 200 echo_handler] 1 2 3
  have "\<exists>err. wrapped strict_parser echo_route bad_request 200 = [CallNext (Some err)]"
    by blast
  with 1 2 3 show ?thesis by blast
qed

text \<open>
  C2. When the handler returns a value that the selected response schema rejects, the
  wrapped handler calls \<open>next\<close> with the error after the handler and never calls
  \<open>res.json\<close>.
\<close>

theorem invalid_result_never_sent:
  assumes "parse_request parse (r_request route) req = Inr parsed"
    and "r_handler route req statusCode parsed = Inr (result, statusCode1)"
    and "response_schema (r_responses route) (response_status statusCode1) = Some s"
    and "parse s result = Inl err"
  shows "wrapped parse route req statusCode = [CallHandler parsed, CallNext (Some err)]
         \<and> (\<forall>v. ResJson v \<notin> set (wrapped parse route req statusCode))"
  using assms by (simp add: wrapped_def respond_def)

lemma parse_good_request:
  "parse_request strict_parser (r_request echo_route) good_request = Inr good_parsed"
  by (simp add: parse_request_def parse_field_def field_schema_def echo_route_def good_request_def
        bad_request_def good_parsed_def strict_parser_def)

theorem invalid_result_witness:
  "wrapped strict_parser number_route good_request 200
     = [CallHandler good_parsed, CallNext (Some (JStr ''ZodError''))]
   \<and> ResJson (JStr ''hello'') \<notin> set (wrapped strict_parser number_route good_request 200)"
proof -
  have 1: "parse_request strict_parser (r_request number_route) good_request = Inr good_parsed"
    using parse_good_request by (simp add: number_route_def)
  have 2: "r_handler number_route good_request 200 good_parsed = Inr (JStr ''hello'', 200)"
    by (simp add: number_route_def echo_route_def echo_handler_def good_parsed_def)
  have 3: "response_schema (r_responses number_route) (response_status 200) = Some (Zod ZodNumber None None)"
    by (simp add: number_route_def response_schema_def response_status_def nullish_or_def)
  have 4: "strict_parser (Zod ZodNumber None None) (JStr ''hello'') = Inl (JStr ''ZodError'')"
    by (simp add: strict_parser_def)
  from invalid_result_never_sent [OF 1 2 3 4] show ?thesis by blast
qed

section \<open>The wrapped handler: which response schema validates\<close>

lemma sorted_Cons_least: "sorted xs \<Longrightarrow> xs = x # rest \<Longrightarrow> \<forall>y \<in> set xs. x \<le> y"
  by auto

lemma first2xxSchema_none:
  assumes "\<forall>m \<in> fst ` set rs. \<not> (200 \<le> m \<and> m < 300)"
  shows "first2xxSchema rs = None"
proof -
  have "filter (\<lambda>n. 200 \<le> n \<and> n < 300) (map fst rs) = []"
    using assms by (auto simp: filter_empty_conv)
  then show ?thesis by (simp add: first2xxSchema_def)
qed

lemma first2xxSchema_least:
  assumes "n \<in> fst ` set rs" and "200 \<le> n \<and> n < 300"
    and "\<forall>m \<in> fst ` set rs. 200 \<le> m \<and> m < 300 \<longrightarrow> n \<le> m"
  shows "first2xxSchema rs = map_of rs n"
proof -
  let ?codes = "sort (filter (\<lambda>n. 200 \<le> n \<and> n < 300) (map fst rs))"
  have mem: "n \<in> set ?codes" using assms by auto
  then obtain first rest where fr: "?codes = first # rest"
    by (cases ?codes) auto
  have "sorted ?codes" by simp
  then have least: "\<forall>y \<in> set ?codes. first \<le> y"
    using fr sorted_Cons_least by blast
  have "first \<in> set ?codes" using fr by simp
  then have "first \<in> fst ` set rs" and "200 \<le> first \<and> first < 300" by auto
  then have "n \<le> first" using assms(3) by blast
  moreover have "first \<le> n" using least mem by blast
  ultimately have "first = n" by simp
  then show ?thesis using fr by (simp add: first2xxSchema_def)
qed

lemma first2xxSchema_declared:
  assumes "first2xxSchema rs = Some s"
  shows "\<exists>n. 200 \<le> n \<and> n < 300 \<and> map_of rs n = Some s"
proof -
  let ?codes = "sort (filter (\<lambda>n. 200 \<le> n \<and> n < 300) (map fst rs))"
  obtain first rest where fr: "?codes = first # rest"
    using assms by (cases ?codes) (auto simp: first2xxSchema_def)
  then have "first \<in> set ?codes" by simp
  then have "200 \<le> first \<and> first < 300" by auto
  moreover have "map_of rs first = Some s"
    using assms fr by (simp add: first2xxSchema_def)
  ultimately show ?thesis by blast
qed

lemma find_sorted_least:
  assumes "sorted (map fst rs)"
  shows "find (\<lambda>(n, s). P n) rs = Some (k, v) \<Longrightarrow> \<forall>m \<in> fst ` set rs. P m \<longrightarrow> k \<le> m"
  using assms
proof (induction rs)
  case Nil then show ?case by simp
next
  case (Cons a rs)
  then show ?case by (cases a) (auto split: if_splits)
qed

lemma find_Some_member: "find P xs = Some x \<Longrightarrow> x \<in> set xs \<and> P x"
  by (induction xs) (auto split: if_splits)

lemma find_2xx_none:
  "find (\<lambda>(n, s). 200 \<le> n \<and> n < 300) rs = None \<Longrightarrow> \<forall>m \<in> fst ` set rs. \<not> (200 \<le> m \<and> m < 300)"
  by (auto simp: find_None_iff)

lemma first2xxSchema_enumeration_order:
  assumes "sorted (map fst rs)" and "distinct (map fst rs)"
  shows "first2xxSchema rs = map_option snd (find (\<lambda>(n, s). 200 \<le> n \<and> n < 300) rs)"
proof (cases "find (\<lambda>(n, s). 200 \<le> n \<and> n < 300) rs")
  case None
  then show ?thesis using first2xxSchema_none [OF find_2xx_none [OF None]] by simp
next
  case (Some kv)
  obtain k v where kv: "kv = (k, v)" by (cases kv)
  have f: "find (\<lambda>(n, s). 200 \<le> n \<and> n < 300) rs = Some (k, v)" using Some kv by simp
  then have mem: "(k, v) \<in> set rs" and k2: "200 \<le> k \<and> k < 300"
    using find_Some_member [of "\<lambda>(n, s). 200 \<le> n \<and> n < 300" rs "(k, v)"] by auto
  have "\<forall>m \<in> fst ` set rs. 200 \<le> m \<and> m < 300 \<longrightarrow> k \<le> m"
    using find_sorted_least [OF assms(1), of "\<lambda>n. 200 \<le> n \<and> n < 300" k v] f by simp
  moreover have "k \<in> fst ` set rs" using mem by force
  ultimately have "first2xxSchema rs = map_of rs k"
    using first2xxSchema_least [of k rs] k2 by blast
  also have "\<dots> = Some v" using mem assms(2) by simp
  finally show ?thesis using f by simp
qed

text \<open>
  C3. After the handler has returned, its value is validated against
  \<open>response_schema\<close> at the status that is sent. That schema is the one declared for
  this status; when none is declared for it, the schema of the smallest declared status in
  \<open>[200, 300)\<close> (the first 2xx entry where the statuses are listed in increasing order, as
  the keys of an object are); when there is none either, the schema declared for 200.
\<close>

theorem response_schema_matches_status:
  assumes "parse_request parse (r_request route) req = Inr parsed"
    and "r_handler route req statusCode parsed = Inr (result, statusCode1)"
  shows "wrapped parse route req statusCode =
           CallHandler parsed #
           (case response_schema (r_responses route) (response_status statusCode1) of
              Some s \<Rightarrow> (case parse s result of
                           Inl err \<Rightarrow> [CallNext (Some err)]
                         | Inr v \<Rightarrow> [ResStatus (response_status statusCode1), ResJson v])
            | None \<Rightarrow> (if result \<noteq> JUndefined
                        then [ResStatus (response_status statusCode1), ResJson result]
                        else [CallNext None]))
         \<and> (\<forall>status s. map_of (r_responses route) status = Some s
               \<longrightarrow> response_schema (r_responses route) status = Some s)
         \<and> (\<forall>status n. map_of (r_responses route) status = None
               \<and> n \<in> fst ` set (r_responses route) \<and> 200 \<le> n \<and> n < 300
               \<and> (\<forall>m \<in> fst ` set (r_responses route). 200 \<le> m \<and> m < 300 \<longrightarrow> n \<le> m)
               \<longrightarrow> response_schema (r_responses route) status = map_of (r_responses route) n)
         \<and> (\<forall>status. map_of (r_responses route) status = None
               \<and> (\<forall>m \<in> fst ` set (r_responses route). \<not> (200 \<le> m \<and> m < 300))
               \<longrightarrow> response_schema (r_responses route) status = map_of (r_responses route) 200)
         \<and> (sorted (map fst (r_responses route)) \<and> distinct (map fst (r_responses route))
               \<longrightarrow> (\<forall>status. map_of (r_responses route) status = None
                     \<longrightarrow> response_schema (r_responses route) status =
                         map_option snd (find (\<lambda>(n, s). 200 \<le> n \<and> n < 300) (r_responses route))))"
proof -
  let ?rs = "r_responses route"
  have a: "wrapped parse route req statusCode =
           CallHandler parsed #
           (case response_schema ?rs (response_status statusCode1) of
              Some s \<Rightarrow> (case parse s result of
                           Inl err \<Rightarrow> [CallNext (Some err)]
                         | Inr v \<Rightarrow> [ResStatus (response_status statusCode1), ResJson v])
            | None \<Rightarrow> (if result \<noteq> JUndefined
                        then [ResStatus (response_status statusCode1), ResJson result]
                        else [CallNext None]))"
    using assms by (simp add: wrapped_def respond_def Let_def)
  have b: "\<forall>status s. map_of ?rs status = Some s \<longrightarrow> response_schema ?rs status = Some s"
    by (simp add: response_schema_def nullish_or_def)
  have c: "\<forall>status n. map_of ?rs status = None \<and> n \<in> fst ` set ?rs \<and> 200 \<le> n \<and> n < 300
               \<and> (\<forall>m \<in> fst ` set ?rs. 200 \<le> m \<and> m < 300 \<longrightarrow> n \<le> m)
               \<longrightarrow> response_schema ?rs status = map_of ?rs n"
  proof (intro allI impI)
    fix status n
    assume h: "map_of ?rs status = None \<and> n \<in> fst ` set ?rs \<and> 200 \<le> n \<and> n < 300
               \<and> (\<forall>m \<in> fst ` set ?rs. 200 \<le> m \<and> m < 300 \<longrightarrow> n \<le> m)"
    then have "first2xxSchema ?rs = map_of ?rs n"
      using first2xxSchema_least [of n ?rs] by blast
    moreover obtain s where "map_of ?rs n = Some s"
      using h by (metis map_of_eq_None_iff not_Some_eq)
    ultimately show "response_schema ?rs status = map_of ?rs n"
      using h by (simp add: response_schema_def nullish_or_def)
  qed
  have d: "\<forall>status. map_of ?rs status = None
               \<and> (\<forall>m \<in> fst ` set ?rs. \<not> (200 \<le> m \<and> m < 300))
               \<longrightarrow> response_schema ?rs status = map_of ?rs 200"
    using first2xxSchema_none [of ?rs] by (simp add: response_schema_def nullish_or_def)
  have e: "sorted (map fst ?rs) \<and> distinct (map fst ?rs)
               \<longrightarrow> (\<forall>status. map_of ?rs status = None
                     \<longrightarrow> response_schema ?rs status =
                         map_option snd (find (\<lambda>(n, s). 200 \<le> n \<and> n < 300) ?rs))"
  proof (intro impI allI)
    fix status
    assume sd: "sorted (map fst ?rs) \<and> distinct (map fst ?rs)" and n: "map_of ?rs status = None"
    have f: "first2xxSchema ?rs = map_option snd (find (\<lambda>(n, s). 200 \<le> n \<and> n < 300) ?rs)"
      using first2xxSchema_enumeration_order sd by blast
    show "response_schema ?rs status = map_option snd (find (\<lambda>(n, s). 200 \<le> n \<and> n < 300) ?rs)"
    proof (cases "first2xxSchema ?rs")
      case None
      then have "\<forall>m \<in> fst ` set ?rs. \<not> (200 \<le> m \<and> m < 300)"
        using f find_2xx_none [of ?rs] by simp
      then have "200 \<notin> fst ` set ?rs" by auto
      then have "map_of ?rs 200 = None" by (simp add: map_of_eq_None_iff)
      then show ?thesis using None n f by (simp add: response_schema_def nullish_or_def)
    next
      case (Some s)
      have "response_schema ?rs status = first2xxSchema ?rs"
        using n Some by (simp add: response_schema_def nullish_or_def)
      then show ?thesis using f by simp
    qed
  qed
  from a b c d e show ?thesis by blast
qed

theorem response_schema_witness:
  "wrapped strict_parser created_route good_request 200
     = [CallHandler good_parsed, CallNext (Some (JStr ''ZodError''))]
   \<and> response_schema (r_responses created_route) 204 = Some (Zod ZodString None None)"
proof -
  have 1: "parse_request strict_parser (r_request created_route) good_request = Inr good_parsed"
    using parse_good_request by (simp add: created_route_def)
  have 2: "r_handler created_route good_request 200 good_parsed = Inr (JNum 5, 204)"
    by (simp add: created_route_def created_handler_def)
  have rs: "r_responses created_route = [(200, Zod ZodString None None), (201, Zod ZodNumber None None)]"
    by (simp add: created_route_def)
  note t = response_schema_matches_status [OF 1 2]
  have sel: "response_schema (r_responses created_route) 204 = map_of (r_responses created_route) 200"
    using t rs by simp
  then have s: "response_schema (r_responses created_route) 204 = Some (Zod ZodString None None)"
    using rs by simp
  have "response_status 204 = 204" by (simp add: response_status_def)
  then have "wrapped strict_parser created_route good_request 200
     = [CallHandler good_parsed, CallNext (Some (JStr ''ZodError''))]"
    using t s by (simp add: strict_parser_def)
  with s show ?thesis by blast
qed

text \<open>
  C10. When the handler leaves a status code outside \<open>[200, 300)\<close> and returns a value,
  the wrapped handler goes on as for status 200: the value is validated against the schema
  declared for 200, else the first 2xx schema, which is declared under a status other than
  the handler's; and whatever \<open>res.status\<close> call it makes has the argument 200.
\<close>

theorem non_2xx_status_treated_as_200:
  assumes "parse_request parse (r_request route) req = Inr parsed"
    and "r_handler route req statusCode parsed = Inr (result, statusCode1)"
    and "\<not> (200 \<le> statusCode1 \<and> statusCode1 < 300)"
  shows "wrapped parse route req statusCode
           = CallHandler parsed # respond parse (r_responses route) result 200
         \<and> respond parse (r_responses route) result 200 =
             (case nullish_or (map_of (r_responses route) 200) (first2xxSchema (r_responses route)) of
                Some s \<Rightarrow> (case parse s result of
                             Inl err \<Rightarrow> [CallNext (Some err)]
                           | Inr v \<Rightarrow> [ResStatus 200, ResJson v])
              | None \<Rightarrow> (if result \<noteq> JUndefined then [ResStatus 200, ResJson result]
                          else [CallNext None]))
         \<and> (\<forall>s. nullish_or (map_of (r_responses route) 200) (first2xxSchema (r_responses route)) = Some s
                \<longrightarrow> (\<exists>n. 200 \<le> n \<and> n < 300 \<and> n \<noteq> statusCode1 \<and> map_of (r_responses route) n = Some s))
         \<and> (\<forall>n. ResStatus n \<in> set (wrapped parse route req statusCode) \<longrightarrow> n = 200)"
proof -
  let ?rs = "r_responses route"
  have st: "response_status statusCode1 = 200"
    using assms(3) by (auto simp: response_status_def)
  have "respond parse ?rs result statusCode1 = respond parse ?rs result 200"
    using st by (simp add: respond_def response_status_def)
  then have w: "wrapped parse route req statusCode = CallHandler parsed # respond parse ?rs result 200"
    using assms(1,2) by (simp add: wrapped_def)
  have sch: "response_schema ?rs 200 = nullish_or (map_of ?rs 200) (first2xxSchema ?rs)"
    by (cases "map_of ?rs 200"; cases "first2xxSchema ?rs")
       (simp_all add: response_schema_def nullish_or_def)
  have r: "respond parse ?rs result 200 =
             (case nullish_or (map_of ?rs 200) (first2xxSchema ?rs) of
                Some s \<Rightarrow> (case parse s result of
                             Inl err \<Rightarrow> [CallNext (Some err)]
                           | Inr v \<Rightarrow> [ResStatus 200, ResJson v])
              | None \<Rightarrow> (if result \<noteq> JUndefined then [ResStatus 200, ResJson result]
                          else [CallNext None]))"
    using sch by (simp add: respond_def response_status_def Let_def)
  have d: "\<forall>s. nullish_or (map_of ?rs 200) (first2xxSchema ?rs) = Some s
                \<longrightarrow> (\<exists>n. 200 \<le> n \<and> n < 300 \<and> n \<noteq> statusCode1 \<and> map_of ?rs n = Some s)"
  proof (intro allI impI)
    fix s assume h: "nullish_or (map_of ?rs 200) (first2xxSchema ?rs) = Some s"
    have "\<exists>n. 200 \<le> n \<and> n < 300 \<and> map_of ?rs n = Some s"
    proof (cases "map_of ?rs 200")
      case None
      then have "first2xxSchema ?rs = Some s" using h by (simp add: nullish_or_def)
      then show ?thesis by (rule first2xxSchema_declared)
    next
      case (Some x)
      then have "map_of ?rs 200 = Some s" using h by (simp add: nullish_or_def)
      then show ?thesis by (intro exI [of _ 200]) simp
    qed
    then show "\<exists>n. 200 \<le> n \<and> n < 300 \<and> n \<noteq> statusCode1 \<and> map_of ?rs n = Some s"
      using assms(3) by blast
  qed
  have e: "\<forall>n. ResStatus n \<in> set (wrapped parse route req statusCode) \<longrightarrow> n = 200"
    unfolding w r by (auto split: option.splits sum.splits if_splits)
  from w r d e show ?thesis by blast
qed

lemma parse_empty_request:
  "parse_request strict_parser (r_request loose_route) bad_request
     = Inr \<lparr>p_params = JObj [], p_query = JObj [], p_body = JNum 7, p_headers = JObj []\<rparr>"
  by (simp add: parse_request_def parse_field_def field_schema_def loose_route_def bad_request_def)

theorem non_2xx_status_witness:
  "wrapped strict_parser loose_route bad_request 200
     = [CallHandler \<lparr>p_params = JObj [], p_query = JObj [], p_body = JNum 7, p_headers = JObj []\<rparr>,
        CallNext (Some (JStr ''ZodError''))]
   \<and> strict_parser (Zod ZodNumber None None) (JNum 1) = Inr (JNum 1)"
proof -
  have 2: "r_handler loose_route bad_request 200
             \<lparr>p_params = JObj [], p_query = JObj [], p_body = JNum 7, p_headers = JObj []\<rparr>
           = Inr (JNum 1, 404)"
    by (simp add: loose_route_def loose_handler_def)
  have 3: "\<not> (200 \<le> (404::int) \<and> (404::int) < 300)" by simp
  note t = non_2xx_status_treated_as_200 [OF parse_empty_request 2 3]
  have rs: "r_responses loose_route = [(404, Zod ZodNumber None None), (201, Zod ZodString None None)]"
    by (simp add: loose_route_def)
  have "nullish_or (map_of (r_responses loose_route) 200) (first2xxSchema (r_responses loose_route))
          = Some (Zod ZodString None None)"
    unfolding rs by (simp add: nullish_or_def first2xxSchema_def)
  then have "respond strict_parser (r_responses loose_route) (JNum 1) 200
          = [CallNext (Some (JStr ''ZodError''))]"
    using t by (simp add: strict_parser_def)
  then show ?thesis using t by (simp add: strict_parser_def)
qed

section \<open>The converter terminates\<close>

lemma unwrap_loop_not_wrapper:
  "z_def (u_schema (unwrap_loop s a b c d)) \<noteq> ZodOptional x
   \<and> z_def (u_schema (unwrap_loop s a b c d)) \<noteq> ZodNullable x
   \<and> z_def (u_schema (unwrap_loop s a b c d)) \<noteq> ZodDefault x
   \<and> z_def (u_schema (unwrap_loop s a b c d)) \<noteq> ZodEffects x"
  by (induction s a b c d rule: unwrap_loop.induct) auto

lemma unwrap_loop_strict:
  assumes "z_def s \<in> {ZodOptional x, ZodNullable x, ZodDefault x, ZodEffects x}"
  shows "size (u_schema (unwrap_loop s a b c d)) < size s"
proof -
  obtain df de nm where s: "s = Zod df de nm" by (cases s)
  have "size x < size s" using assms s by auto
  moreover have "size (u_schema (unwrap_loop s a b c d)) \<le> size x"
    using assms s by (auto simp: size_unwrap_loop)
  ultimately show ?thesis by simp
qed

text \<open>
  C9. \<open>zodToOpenApiSchema\<close> terminates on every schema: every argument is in the domain on
  which its recursion is well-founded. The loop of \<open>unwrapZodType\<close> ends on a schema that
  is no wrapper and no larger than its argument, strictly smaller when the argument is a
  wrapper; the recursive calls are on the element of an array, on the unwrapped fields of
  an object and on the options of a union, all strictly smaller than the schema; and the
  call that registers a component is on the same schema with \<open>asComponent\<close> set, which
  lowers the measure of the call.
\<close>

theorem conversion_terminates:
  "zodToOpenApiSchema_dom (inh, schema, context, asComponent, schemas)
   \<and> (\<forall>x. z_def (u_schema (unwrapZodType schema)) \<notin> {ZodOptional x, ZodNullable x, ZodDefault x, ZodEffects x})
   \<and> size (u_schema (unwrapZodType schema)) \<le> size schema
   \<and> (\<forall>x. z_def schema \<in> {ZodOptional x, ZodNullable x, ZodDefault x, ZodEffects x}
          \<longrightarrow> size (u_schema (unwrapZodType schema)) < size schema)
   \<and> (\<forall>t. z_def (u_schema (unwrapZodType schema)) = ZodArray t \<longrightarrow> size t < size schema)
   \<and> (\<forall>shape k v. z_def (u_schema (unwrapZodType schema)) = ZodObject shape \<and> (k, v) \<in> set shape
          \<longrightarrow> size (u_schema (unwrapZodType v)) < size schema)
   \<and> (\<forall>options x. z_def (u_schema (unwrapZodType schema)) = ZodUnion options \<and> x \<in> set options
          \<longrightarrow> size x < size schema)
   \<and> call_measure (inh, schema, context, True, schemas) < call_measure (inh, schema, context, False, schemas)"
proof -
  let ?b = "u_schema (unwrapZodType schema)"
  have le: "size ?b \<le> size schema" by (rule size_unwrapZodType)
  have 1: "zodToOpenApiSchema_dom (inh, schema, context, asComponent, schemas)"
    using zodToOpenApiSchema_all_dom by blast
  have 2: "\<forall>x. z_def ?b \<notin> {ZodOptional x, ZodNullable x, ZodDefault x, ZodEffects x}"
    using unwrap_loop_not_wrapper by (simp add: unwrapZodType_def)
  have 3: "\<forall>x. z_def schema \<in> {ZodOptional x, ZodNullable x, ZodDefault x, ZodEffects x}
          \<longrightarrow> size ?b < size schema"
    using unwrap_loop_strict unfolding unwrapZodType_def by blast
  have 4: "\<forall>t. z_def ?b = ZodArray t \<longrightarrow> size t < size schema"
    using size_array_element le by (metis less_le_trans)
  have 5: "\<forall>shape k v. z_def ?b = ZodObject shape \<and> (k, v) \<in> set shape
          \<longrightarrow> size (u_schema (unwrapZodType v)) < size schema"
  proof (intro allI impI)
    fix shape k v
    assume h: "z_def ?b = ZodObject shape \<and> (k, v) \<in> set shape"
    then have "size v < size ?b" using size_object_field by blast
    then show "size (u_schema (unwrapZodType v)) < size schema"
      using le size_unwrapZodType [of v] by simp
  qed
  have 6: "\<forall>options x. z_def ?b = ZodUnion options \<and> x \<in> set options \<longrightarrow> size x < size schema"
    using size_union_option le by (metis less_le_trans)
  have 7: "call_measure (inh, schema, context, True, schemas) < call_measure (inh, schema, context, False, schemas)"
    by (simp add: call_measure_def)
  from 1 2 le 3 4 5 6 7 show ?thesis by blast
qed

theorem conversion_terminates_witness:
  "zodToOpenApiSchema_dom (object_prototype_keys, id_age_schema, True, False, [])
   \<and> size (u_schema (unwrapZodType nullable_date)) < size nullable_date
   \<and> size (u_schema (unwrapZodType (Zod (ZodOptional (Zod ZodNumber None None)) None None))) < size id_age_schema"
proof -
  note t = conversion_terminates [of object_prototype_keys id_age_schema True False "[]"]
  note n = conversion_terminates [of "[]" nullable_date False False "[]"]
  have "z_def nullable_date \<in> {ZodOptional (Zod (ZodOther ''ZodDate'') None None),
          ZodNullable (Zod (ZodOther ''ZodDate'') None None), ZodDefault (Zod (ZodOther ''ZodDate'') None None),
          ZodEffects (Zod (ZodOther ''ZodDate'') None None)}"
    by (simp add: nullable_date_def)
  then have a: "size (u_schema (unwrapZodType nullable_date)) < size nullable_date"
    using n by blast
  have "z_def (u_schema (unwrapZodType id_age_schema))
          = ZodObject [(''id'', Zod ZodString None None),
                       (''age'', Zod (ZodOptional (Zod ZodNumber None None)) None None)]
        \<and> (''age'', Zod (ZodOptional (Zod ZodNumber None None)) None None)
            \<in> set [(''id'', Zod ZodString None None),
                    (''age'', Zod (ZodOptional (Zod ZodNumber None None)) None None)]"
    by (simp add: id_age_schema_def unwrapZodType_def)
  then have b: "size (u_schema (unwrapZodType (Zod (ZodOptional (Zod ZodNumber None None)) None None))) < size id_age_schema"
    using t by blast
  from t a b show ?thesis by blast
qed

section \<open>Fragments of the converter\<close>

text \<open>Without a context the component table is not touched and plays no part.\<close>

lemma map_state_pure:
  assumes "\<And>x s. x \<in> set xs \<Longrightarrow> f x s = (g x, s)"
  shows "map_state f xs s = (map g xs, s)"
  using assms by (induction xs arbitrary: s) auto

lemma convert_shape_pure:
  assumes "\<And>k v st. (k, v) \<in> set shape \<Longrightarrow> conv (u_schema (unwrapZodType v)) st = (g (u_schema (unwrapZodType v)), st)"
  shows "convert_shape conv shape (properties, required, schemas) =
           (fold (\<lambda>(k, v). js_set k (decorate (u_description (unwrapZodType v)) (u_isNullable (unwrapZodType v))
                                      (g (u_schema (unwrapZodType v))))) shape properties,
            required @ map fst (filter (\<lambda>(k, v). \<not> u_isOptional (unwrapZodType v)) shape),
            schemas)"
  using assms
proof (induction shape arbitrary: properties required)
  case Nil
  then show ?case by simp
next
  case (Cons kv shape)
  obtain key val where kv: "kv = (key, val)" by (cases kv)
  have head: "conv (u_schema (unwrapZodType val)) schemas = (g (u_schema (unwrapZodType val)), schemas)"
    using Cons.prems [of key val schemas] kv by simp
  have tail: "convert_shape conv shape (p, r, schemas) =
           (fold (\<lambda>(k, v). js_set k (decorate (u_description (unwrapZodType v)) (u_isNullable (unwrapZodType v))
                                      (g (u_schema (unwrapZodType v))))) shape p,
            r @ map fst (filter (\<lambda>(k, v). \<not> u_isOptional (unwrapZodType v)) shape),
            schemas)" for p r
  proof (rule Cons.IH)
    fix k v st
    assume "(k, v) \<in> set shape"
    then show "conv (u_schema (unwrapZodType v)) st = (g (u_schema (unwrapZodType v)), st)"
      using Cons.prems [of k v st] by simp
  qed
  show ?case unfolding kv by (simp add: head tail Let_def)
qed

lemma no_context_state:
  "zodToOpenApiSchema inh schema False a st = (fst (zodToOpenApiSchema inh schema False False []), st)"
proof (induction inh schema "False" a st rule: zodToOpenApiSchema.induct)
  case (1 inh schema a st)
  let ?u = "unwrapZodType schema"
  note arr = 1(2) [OF refl refl refl refl refl]
  note obj = 1(3) [OF refl refl refl refl refl]
  note uni = 1(4) [OF refl refl refl refl refl]
  show ?case
  proof (cases "z_def (u_schema ?u)")
    case (ZodArray t)
    have "zodToOpenApiSchema inh t False False st = (fst (zodToOpenApiSchema inh t False False []), st)"
      using arr [of t] ZodArray by simp
    then show ?thesis
      using ZodArray
      by (subst zodToOpenApiSchema.simps, subst (2) zodToOpenApiSchema.simps)
         (simp add: Let_def case_prod_beta)
  next
    case (ZodObject shape)
    have "zodToOpenApiSchema inh (u_schema (unwrapZodType v)) False False s
            = (fst (zodToOpenApiSchema inh (u_schema (unwrapZodType v)) False False []), s)"
      if "(k, v) \<in> set shape" for k v s
      using obj [of shape k v s] ZodObject that by simp
    then have "convert_shape (\<lambda>s st. zodToOpenApiSchema inh s False False st) shape ([], [], s) =
           (fold (\<lambda>(k, v). js_set k (decorate (u_description (unwrapZodType v)) (u_isNullable (unwrapZodType v))
                                      (fst (zodToOpenApiSchema inh (u_schema (unwrapZodType v)) False False [])))) shape [],
            [] @ map fst (filter (\<lambda>(k, v). \<not> u_isOptional (unwrapZodType v)) shape),
            s)" for s
      by (rule convert_shape_pure)
    then show ?thesis
      using ZodObject
      by (subst zodToOpenApiSchema.simps, subst (2) zodToOpenApiSchema.simps) (simp add: Let_def)
  next
    case (ZodUnion options)
    have "zodToOpenApiSchema inh x False False s = (fst (zodToOpenApiSchema inh x False False []), s)"
      if "x \<in> set options" for x s
      using uni [of options x s] ZodUnion that by simp
    then have "map_state (\<lambda>s st. zodToOpenApiSchema inh s False False st) options s
           = (map (\<lambda>x. fst (zodToOpenApiSchema inh x False False [])) options, s)" for s
      by (rule map_state_pure)
    then show ?thesis
      using ZodUnion
      by (subst zodToOpenApiSchema.simps, subst (2) zodToOpenApiSchema.simps) (simp add: Let_def)
  qed (subst zodToOpenApiSchema.simps, subst (2) zodToOpenApiSchema.simps, simp add: Let_def)+
qed


lemma update_fresh: "k \<notin> fst ` set acc \<Longrightarrow> AList.update k v acc = acc @ [(k, v)]"
  by (induction acc) auto

lemma fold_js_set_fresh:
  assumes "distinct (map fst kvs)" and "''__proto__'' \<notin> fst ` set kvs"
    and "fst ` set kvs \<inter> fst ` set acc = {}"
  shows "fold (\<lambda>(k, v). js_set k (f v)) kvs acc = acc @ map (\<lambda>(k, v). (k, f v)) kvs"
  using assms
proof (induction kvs arbitrary: acc)
  case Nil
  then show ?case by simp
next
  case (Cons kv kvs)
  obtain k v where kv: "kv = (k, v)" by (cases kv)
  have fresh: "k \<notin> fst ` set acc" and np: "k \<noteq> ''__proto__''"
    using Cons.prems kv by auto
  have step: "js_set k (f v) acc = acc @ [(k, f v)]"
    using fresh np by (simp add: js_set_def update_fresh)
  have "fst ` set kvs \<inter> fst ` set (acc @ [(k, f v)]) = {}"
    using Cons.prems kv by auto
  then have "fold (\<lambda>(k, v). js_set k (f v)) kvs (acc @ [(k, f v)])
               = (acc @ [(k, f v)]) @ map (\<lambda>(k, v). (k, f v)) kvs"
    using Cons.IH [of "acc @ [(k, f v)]"] Cons.prems by simp
  then show ?case by (simp add: kv step)
qed

lemma object_without_context:
  assumes "distinct (map fst shape)" and "''__proto__'' \<notin> fst ` set shape"
  shows "fst (zodToOpenApiSchema inh (Zod (ZodObject shape) None None) False asComponent schemas) =
           JObj ([(''type'', JStr ''object''),
                  (''properties'',
                   JObj (map (\<lambda>(k, v). (k, decorate (u_description (unwrapZodType v)) (u_isNullable (unwrapZodType v))
                                            (fst (zodToOpenApiSchema inh (u_schema (unwrapZodType v)) False False schemas))))
                             shape))]
                 @ (if filter (\<lambda>(k, v). \<not> u_isOptional (unwrapZodType v)) shape \<noteq> []
                    then [(''required'',
                           JArr (map JStr (map fst (filter (\<lambda>(k, v). \<not> u_isOptional (unwrapZodType v)) shape))))]
                    else []))"
proof -
  let ?g = "\<lambda>s. fst (zodToOpenApiSchema inh s False False schemas)"
  let ?field = "\<lambda>v. decorate (u_description (unwrapZodType v)) (u_isNullable (unwrapZodType v))
                     (?g (u_schema (unwrapZodType v)))"
  let ?req = "map fst (filter (\<lambda>(k, v). \<not> u_isOptional (unwrapZodType v)) shape)"
  have pure: "zodToOpenApiSchema inh s False False st = (?g s, st)" for s st
    using no_context_state [of inh s False st] no_context_state [of inh s False schemas] by simp
  have "convert_shape (\<lambda>s st. zodToOpenApiSchema inh s False False st) shape ([], [], schemas) =
           (fold (\<lambda>(k, v). js_set k (?field v)) shape [], [] @ ?req, schemas)"
    by (rule convert_shape_pure) (rule pure)
  moreover have "fold (\<lambda>(k, v). js_set k (?field v)) shape [] = [] @ map (\<lambda>(k, v). (k, ?field v)) shape"
    by (rule fold_js_set_fresh) (use assms in simp_all)
  ultimately have cs: "convert_shape (\<lambda>s st. zodToOpenApiSchema inh s False False st) shape ([], [], schemas) =
           (map (\<lambda>(k, v). (k, ?field v)) shape, ?req, schemas)"
    by simp
  have u: "unwrapZodType (Zod (ZodObject shape) None None) =
             \<lparr>u_schema = Zod (ZodObject shape) None None, u_isNullable = False, u_isOptional = False,
              u_description = None, u_openApiName = None\<rparr>"
    by (simp add: unwrapZodType_def)
  have "zodToOpenApiSchema inh (Zod (ZodObject shape) None None) False asComponent schemas =
          (let (properties, required, schemas1) =
                 convert_shape (\<lambda>s st. zodToOpenApiSchema inh s False False st) shape ([], [], schemas)
           in (JObj ([(''type'', JStr ''object''), (''properties'', JObj properties)]
                     @ (if required \<noteq> [] then [(''required'', JArr (map JStr required))] else [])),
               schemas1))"
    by (subst zodToOpenApiSchema.simps) (simp add: u decorate_def)
  then show ?thesis
    unfolding cs by (simp add: filter_empty_conv)
qed

text \<open>
  C5, as the claim states it, fails: a nullable date converts to \<open>{nullable: true}\<close>, not
  to \<open>{}\<close>.
\<close>

theorem unsupported_kind_counterexample:
  "z_def (u_schema (unwrapZodType nullable_date)) = ZodOther ''ZodDate''
   \<and> fst (zodToOpenApiSchema object_prototype_keys nullable_date False False []) \<noteq> JObj []"
  by (simp add: nullable_date_def zodToOpenApiSchema.simps unwrapZodType_def name_of_def decorate_def
        js_set_def or_else_def)

text \<open>
  C5, amended. A schema whose unwrapped kind is none of the supported ones, and which is not
  replaced by a reference to a named component, converts to a fragment without any type
  information: the empty object, to which only the description found while unwrapping and
  \<open>nullable: true\<close> for a nullable wrapper are added. The component table is left as it
  is, and nothing fails.
\<close>

theorem unsupported_kind_fragment:
  assumes "z_def (u_schema (unwrapZodType schema)) = ZodOther t"
    and "\<not> (context \<and> name_of (u_openApiName (unwrapZodType schema)) \<noteq> [] \<and> \<not> asComponent)"
  shows "zodToOpenApiSchema inh schema context asComponent schemas =
           (JObj ((if truthy_str (u_description (unwrapZodType schema))
                   then [(''description'', JStr (name_of (u_description (unwrapZodType schema))))] else [])
                  @ (if u_isNullable (unwrapZodType schema) then [(''nullable'', JBool True)] else [])),
            schemas)"
  using assms
  by (subst zodToOpenApiSchema.simps) (auto simp: Let_def decorate_def js_set_def name_of_def)

theorem unsupported_kind_witness:
  "zodToOpenApiSchema object_prototype_keys (Zod (ZodOther ''ZodDate'') None None) True False []
     = (JObj [], [])
   \<and> zodToOpenApiSchema object_prototype_keys nullable_date True False []
     = (JObj [(''nullable'', JBool True)], [])"
proof -
  have 1: "z_def (u_schema (unwrapZodType (Zod (ZodOther ''ZodDate'') None None))) = ZodOther ''ZodDate''"
    and 2: "\<not> (True \<and> name_of (u_openApiName (unwrapZodType (Zod (ZodOther ''ZodDate'') None None))) \<noteq> [] \<and> \<not> False)"
    and 3: "z_def (u_schema (unwrapZodType nullable_date)) = ZodOther ''ZodDate''"
    and 4: "\<not> (True \<and> name_of (u_openApiName (unwrapZodType nullable_date)) \<noteq> [] \<and> \<not> False)"
    by (simp_all add: unwrapZodType_def name_of_def nullable_date_def or_else_def)
  show ?thesis
    using unsupported_kind_fragment [OF 1 2, of object_prototype_keys "[]"]
          unsupported_kind_fragment [OF 3 4, of object_prototype_keys "[]"]
    by (simp add: unwrapZodType_def nullable_date_def or_else_def)
qed

text \<open>
  C6. The object schema \<open>{id: string, age: optional number}\<close> converts to
  \<open>{type: object, properties: {id: {type: string}, age: {type: number}}, required: [id]}\<close>.
  In general, without a context, an object schema converts to the object type whose
  properties are, field by field, the conversions of the unwrapped field schemas (with the
  description and the nullable flag of the field), and whose \<open>required\<close> lists exactly the
  fields that are not optional, in order; \<open>required\<close> is absent when every field is optional.
\<close>

theorem object_schema_conversion:
  "fst (zodToOpenApiSchema inh id_age_schema context asComponent schemas) =
     JObj [(''type'', JStr ''object''),
           (''properties'', JObj [(''id'', JObj [(''type'', JStr ''string'')]),
                                  (''age'', JObj [(''type'', JStr ''number'')])]),
           (''required'', JArr [JStr ''id''])]
   \<and> (distinct (map fst shape) \<and> ''__proto__'' \<notin> fst ` set shape \<longrightarrow>
        fst (zodToOpenApiSchema inh (Zod (ZodObject shape) None None) False asComponent schemas) =
          JObj ([(''type'', JStr ''object''),
                 (''properties'',
                  JObj (map (\<lambda>(k, v). (k, decorate (u_description (unwrapZodType v)) (u_isNullable (unwrapZodType v))
                                           (fst (zodToOpenApiSchema inh (u_schema (unwrapZodType v)) False False schemas))))
                            shape))]
                @ (if filter (\<lambda>(k, v). \<not> u_isOptional (unwrapZodType v)) shape \<noteq> []
                   then [(''required'',
                          JArr (map JStr (map fst (filter (\<lambda>(k, v). \<not> u_isOptional (unwrapZodType v)) shape))))]
                   else [])))"
proof -
  have "fst (zodToOpenApiSchema inh id_age_schema context asComponent schemas) =
     JObj [(''type'', JStr ''object''),
           (''properties'', JObj [(''id'', JObj [(''type'', JStr ''string'')]),
                                  (''age'', JObj [(''type'', JStr ''number'')])]),
           (''required'', JArr [JStr ''id''])]"
    by (simp add: id_age_schema_def zodToOpenApiSchema.simps unwrapZodType_def name_of_def decorate_def
          js_set_def or_else_def)
  then show ?thesis using object_without_context by blast
qed

theorem object_schema_witness:
  "fst (zodToOpenApiSchema [] (Zod (ZodObject [(''name'', Zod (ZodNullable (Zod ZodString None None)) None None)]) None None)
         False False []) =
     JObj [(''type'', JStr ''object''),
           (''properties'', JObj [(''name'', JObj [(''type'', JStr ''string''), (''nullable'', JBool True)])]),
           (''required'', JArr [JStr ''name''])]"
proof -
  have s: "zodToOpenApiSchema [] (Zod ZodString None None) False False [] = (JObj [(''type'', JStr ''string'')], [])"
    by (simp add: zodToOpenApiSchema.simps unwrapZodType_def name_of_def decorate_def)
  have d: "distinct (map fst [(''name'', Zod (ZodNullable (Zod ZodString None None)) None None)])
           \<and> ''__proto__'' \<notin> fst ` set [(''name'', Zod (ZodNullable (Zod ZodString None None)) None None)]"
    by simp
  show ?thesis
    using object_schema_conversion
            [of "[]" False False "[]" "[(''name'', Zod (ZodNullable (Zod ZodString None None)) None None)]"] d
    by (simp add: unwrapZodType_def or_else_def decorate_def js_set_def s)
qed

section \<open>The route sequence\<close>

text \<open>
  C8. With the router's array allocated in the store: \<open>route\<close>, \<open>get\<close>, \<open>post\<close>, \<open>put\<close>,
  \<open>patch\<close> and \<open>delete\<close> change nothing but that array, to which they append one
  definition; \<open>register\<close> leaves the store as it is and \<open>buildOpenApi\<close> leaves the router's
  array as it is; \<open>getRoutes\<close> returns a new array with the same definitions in the same
  order, and no mutation of that array changes the router's.
\<close>

theorem route_sequence_append_only:
  fixes this :: TypedRouter and h :: "TypedHandler heap"
  assumes "routes this < length h"
  shows "TypedRouter_route this d h = (this, h[routes this := h ! routes this @ [d]])
       \<and> TypedRouter_get this p options h = (this, h[routes this := h ! routes this @ [with_method GET p options]])
       \<and> TypedRouter_post this p options h = (this, h[routes this := h ! routes this @ [with_method POST p options]])
       \<and> TypedRouter_put this p options h = (this, h[routes this := h ! routes this @ [with_method PUT p options]])
       \<and> TypedRouter_patch this p options h = (this, h[routes this := h ! routes this @ [with_method PATCH p options]])
       \<and> TypedRouter_delete this p options h = (this, h[routes this := h ! routes this @ [with_method DELETE p options]])
       \<and> snd (TypedRouter_route this d h) ! routes this = h ! routes this @ [d]
       \<and> snd (TypedRouter_register parse this h) = h
       \<and> snd (buildOpenApi this oo h) ! routes this = h ! routes this
       \<and> (let (a, h1) = TypedRouter_getRoutes this h
          in a \<noteq> routes this \<and> length h \<le> a \<and> h1 ! a = h ! routes this
             \<and> h1 ! routes this = h ! routes this
             \<and> (\<forall>f. array_mutate a f h1 ! routes this = h ! routes this))"
  using assms
  by (simp add: TypedRouter_route_def TypedRouter_get_def TypedRouter_post_def TypedRouter_put_def
        TypedRouter_patch_def TypedRouter_delete_def TypedRouter_register_def buildOpenApi_def
        TypedRouter_getRoutes_def array_mutate_def nth_append)

theorem route_sequence_witness:
  "routes (fst first_router) < length (snd first_router)
   \<and> snd (TypedRouter_route (fst first_router) echo_route (snd first_router)) ! routes (fst first_router)
       = [echo_route]
   \<and> array_mutate 1 (\<lambda>xs. []) (snd (TypedRouter_getRoutes (fst first_router) [[echo_route]])) ! 0 = [echo_route]"
proof -
  have 1: "routes (fst first_router) < length (snd first_router)"
    by (simp add: first_router_def new_TypedRouter_def)
  have e: "snd first_router ! routes (fst first_router) = []"
    by (simp add: first_router_def new_TypedRouter_def)
  have 2: "routes (fst first_router) < length [[echo_route]]"
    by (simp add: first_router_def new_TypedRouter_def)
  have "snd (TypedRouter_route (fst first_router) echo_route (snd first_router)) ! routes (fst first_router)
       = snd first_router ! routes (fst first_router) @ [echo_route]"
    using route_sequence_append_only [OF 1, of echo_route] by blast
  then have a: "snd (TypedRouter_route (fst first_router) echo_route (snd first_router)) ! routes (fst first_router)
       = [echo_route]"
    using e by simp
  have g: "TypedRouter_getRoutes (fst first_router) [[echo_route]] = (1, [[echo_route], [echo_route]])"
    by (simp add: TypedRouter_getRoutes_def first_router_def new_TypedRouter_def)
  have r0: "routes (fst first_router) = 0"
    by (simp add: first_router_def new_TypedRouter_def)
  have "let (a, h1) = TypedRouter_getRoutes (fst first_router) [[echo_route]]
        in \<forall>f. array_mutate a f h1 ! routes (fst first_router) = [[echo_route]] ! routes (fst first_router)"
    using route_sequence_append_only [OF 2] by (simp add: case_prod_beta)
  then have "array_mutate 1 (\<lambda>xs. []) (snd (TypedRouter_getRoutes (fst first_router) [[echo_route]])) ! 0 = [echo_route]"
    unfolding g r0 by simp
  with 1 a show ?thesis by blast
qed

section \<open>The component table\<close>

lemma table_grows_refl: "table_grows st st"
  by (simp add: table_grows_def)

lemma table_grows_trans: "table_grows a b \<Longrightarrow> table_grows b c \<Longrightarrow> table_grows a c"
  by (simp add: table_grows_def)

lemma map_of_js_set_other: "k \<noteq> name \<Longrightarrow> map_of (js_set name v st) k = map_of st k"
  by (simp add: js_set_def update_conv')

lemma distinct_js_set: "distinct (map fst st) \<Longrightarrow> distinct (map fst (js_set name v st))"
  by (simp add: js_set_def distinct_update)

lemma table_grows_js_set:
  assumes "table_grows st st1" and "map_of st name = None"
  shows "table_grows st (js_set name v st1)"
  using assms unfolding table_grows_def
  by (metis distinct_js_set map_of_js_set_other option.distinct(1))

lemma map_state_grows:
  assumes "\<And>x s. x \<in> set xs \<Longrightarrow> table_grows s (snd (f x s))"
  shows "table_grows s (snd (map_state f xs s))"
  using assms
proof (induction xs arbitrary: s)
  case Nil
  then show ?case by (simp add: table_grows_refl)
next
  case (Cons x xs)
  obtain y s1 where f: "f x s = (y, s1)" by (cases "f x s")
  have 1: "table_grows s s1" using Cons.prems [of x s] f by simp
  have 2: "table_grows s1 (snd (map_state f xs s1))"
    by (rule Cons.IH) (simp add: Cons.prems)
  show ?case using table_grows_trans [OF 1 2] f by (simp add: case_prod_beta)
qed

lemma convert_shape_grows:
  assumes "\<And>k v st. (k, v) \<in> set shape \<Longrightarrow> table_grows st (snd (conv (u_schema (unwrapZodType v)) st))"
  shows "table_grows s (snd (snd (convert_shape conv shape (p, r, s))))"
  using assms
proof (induction shape arbitrary: p r s)
  case Nil
  then show ?case by (simp add: table_grows_refl)
next
  case (Cons kv shape)
  obtain key val where kv: "kv = (key, val)" by (cases kv)
  obtain y s1 where c: "conv (u_schema (unwrapZodType val)) s = (y, s1)"
    by (cases "conv (u_schema (unwrapZodType val)) s")
  have 1: "table_grows s s1" using Cons.prems [of key val s] kv c by simp
  have 2: "table_grows s1 (snd (snd (convert_shape conv shape (p', r', s1))))" for p' r'
  proof (rule Cons.IH)
    fix k v st assume "(k, v) \<in> set shape"
    then show "table_grows st (snd (conv (u_schema (unwrapZodType v)) st))"
      using Cons.prems [of k v st] by simp
  qed
  show ?case unfolding kv using table_grows_trans [OF 1 2] c by (simp add: Let_def)
qed

lemma js_has_own: "\<not> js_has inh st name \<Longrightarrow> map_of st name = None"
  by (simp add: js_has_def own_keys_def map_of_eq_None_iff)

lemma conversion_grows:
  "table_grows schemas (snd (zodToOpenApiSchema inh schema ctx asComponent schemas))"
proof (induction inh schema ctx asComponent schemas rule: zodToOpenApiSchema.induct)
  case (1 inh schema ctx asComponent schemas)
  let ?u = "unwrapZodType schema"
  let ?name = "name_of (u_openApiName ?u)"
  note named = 1(1) [OF refl refl refl refl refl]
  note arr = 1(2) [OF refl refl refl refl refl]
  note obj = 1(3) [OF refl refl refl refl refl]
  note uni = 1(4) [OF refl refl refl refl refl]
  show ?case
  proof (cases "ctx \<and> ?name \<noteq> [] \<and> \<not> asComponent")
    case True
    show ?thesis
    proof (cases "js_has inh schemas ?name")
      case has: True
      then show ?thesis
        by (subst zodToOpenApiSchema.simps) (simp add: Let_def table_grows_refl if_P [OF True])
    next
      case nohas: False
      have g: "table_grows schemas (snd (zodToOpenApiSchema inh schema ctx True schemas))"
        using named True nohas by simp
      have "table_grows schemas
              (js_set ?name (fst (zodToOpenApiSchema inh schema ctx True schemas))
                            (snd (zodToOpenApiSchema inh schema ctx True schemas)))"
        using table_grows_js_set [OF g js_has_own [OF nohas]] .
      then show ?thesis
        using nohas
        by (subst zodToOpenApiSchema.simps) (simp add: Let_def case_prod_beta if_P [OF True])
    qed
  next
    case False
    show ?thesis
    proof (cases "z_def (u_schema ?u)")
      case (ZodArray t)
      have "table_grows schemas (snd (zodToOpenApiSchema inh t ctx False schemas))"
        using arr [of t] False ZodArray by simp
      then show ?thesis
        using ZodArray
        by (subst zodToOpenApiSchema.simps) (simp add: Let_def case_prod_beta if_not_P [OF False])
    next
      case (ZodObject shape)
      have "table_grows st (snd (zodToOpenApiSchema inh (u_schema (unwrapZodType v)) ctx False st))"
        if "(k, v) \<in> set shape" for k v st
        using obj [of shape k v st] False ZodObject that by simp
      then have "table_grows schemas
                   (snd (snd (convert_shape (\<lambda>s st. zodToOpenApiSchema inh s ctx False st) shape ([], [], schemas))))"
        by (rule convert_shape_grows)
      then show ?thesis
        using ZodObject
        by (subst zodToOpenApiSchema.simps) (simp add: Let_def case_prod_beta if_not_P [OF False])
    next
      case (ZodUnion options)
      have "table_grows s (snd (zodToOpenApiSchema inh x ctx False s))" if "x \<in> set options" for x s
        using uni [of options x s] False ZodUnion that by simp
      then have "table_grows schemas
                   (snd (map_state (\<lambda>s st. zodToOpenApiSchema inh s ctx False st) options schemas))"
        by (rule map_state_grows)
      then show ?thesis
        using ZodUnion
        by (subst zodToOpenApiSchema.simps) (simp add: Let_def case_prod_beta if_not_P [OF False])
    qed (subst zodToOpenApiSchema.simps, simp add: Let_def table_grows_refl if_not_P [OF False])+
  qed
qed


lemma table_grows_keys: "table_grows st st' \<Longrightarrow> k \<in> own_keys st \<Longrightarrow> k \<in> own_keys st'"
proof -
  assume g: "table_grows st st'" and k: "k \<in> own_keys st"
  then obtain v where "map_of st k = Some v"
    by (metis own_keys_def map_of_eq_None_iff not_Some_eq)
  then have "map_of st' k = Some v" using g by (simp add: table_grows_def)
  then show ?thesis by (metis own_keys_def map_of_eq_None_iff option.distinct(1))
qed

lemma map_of_js_set_same: "name \<noteq> ''__proto__'' \<Longrightarrow> map_of (js_set name v st) name = Some v"
  by (simp add: js_set_def update_conv')

lemma own_keys_map_of: "k \<in> own_keys st \<longleftrightarrow> map_of st k \<noteq> None"
  by (simp add: own_keys_def map_of_eq_None_iff)

text \<open>A conversion with context of a schema that carries a name.\<close>

lemma named_use_site:
  assumes "name_of (u_openApiName (unwrapZodType schema)) = name" and "name \<noteq> []"
  shows "fst (zodToOpenApiSchema inh schema True False schemas) =
           decorate (u_description (unwrapZodType schema)) (u_isNullable (unwrapZodType schema))
             (JObj [(''$ref'', JStr (''#/components/schemas/'' @ name))])"
    and "js_has inh schemas name \<Longrightarrow> snd (zodToOpenApiSchema inh schema True False schemas) = schemas"
    and "\<not> js_has inh schemas name \<Longrightarrow>
           snd (zodToOpenApiSchema inh schema True False schemas) =
             js_set name (fst (zodToOpenApiSchema inh schema True True schemas))
                         (snd (zodToOpenApiSchema inh schema True True schemas))"
  using assms
  by (subst zodToOpenApiSchema.simps, simp add: Let_def case_prod_beta)+

lemma named_registered:
  assumes "name_of (u_openApiName (unwrapZodType schema)) = name" and "name \<noteq> []"
    and "name \<notin> set inh" and "name \<noteq> ''__proto__''"
  shows "name \<in> own_keys (snd (zodToOpenApiSchema inh schema True False schemas))"
proof (cases "js_has inh schemas name")
  case True
  then have "name \<in> own_keys schemas" using assms(3) by (simp add: js_has_def)
  then show ?thesis using named_use_site(2) [OF assms(1,2) True] by simp
next
  case False
  have "map_of (snd (zodToOpenApiSchema inh schema True False schemas)) name
          = Some (fst (zodToOpenApiSchema inh schema True True schemas))"
    using named_use_site(3) [OF assms(1,2) False] map_of_js_set_same [OF assms(4)] by simp
  then show ?thesis by (simp add: own_keys_map_of)
qed

lemma convert_responses_grows:
  "table_grows schemas (snd (convert_responses inh rs (acc, schemas)))"
proof (induction rs arbitrary: acc schemas)
  case Nil
  then show ?case by (simp add: table_grows_refl)
next
  case (Cons a rs)
  obtain status schema where a: "a = (status, schema)" by (cases a)
  obtain s st1 where c: "zodToOpenApiSchema inh schema True False schemas = (s, st1)"
    by (cases "zodToOpenApiSchema inh schema True False schemas")
  have 1: "table_grows schemas st1"
    using conversion_grows [of schemas inh schema True False] c by simp
  show ?case
    unfolding a using table_grows_trans [OF 1 Cons] c by simp
qed

lemma method_name_not_proto: "method_name m \<noteq> ''__proto__''"
  by (cases m) simp_all

lemma own_keys_js_set: "k \<noteq> ''__proto__'' \<Longrightarrow> own_keys (js_set k v obj) = insert k (own_keys obj)"
proof -
  assume "k \<noteq> ''__proto__''"
  then have "own_keys (js_set k v obj) = dom (map_of (AList.update k v obj))"
    by (simp add: js_set_def own_keys_def dom_map_of_conv_image_fst)
  also have "\<dots> = insert k (dom (map_of obj))" by (simp add: update_conv')
  finally show ?thesis by (simp add: own_keys_def dom_map_of_conv_image_fst)
qed

lemma own_keys_js_set_proto: "own_keys (js_set ''__proto__'' v obj) = own_keys obj"
  by (simp add: js_set_def)

lemma route_operation_grows: "table_grows schemas (snd (route_operation inh route schemas))"
proof -
  let ?body = "(case r_request route of Some r \<Rightarrow> rs_body r | None \<Rightarrow> None)"
  let ?s1 = "(case ?body of Some b \<Rightarrow> snd (zodToOpenApiSchema inh b True False schemas) | None \<Rightarrow> schemas)"
  have eq: "snd (route_operation inh route schemas) = snd (convert_responses inh (r_responses route) ([], ?s1))"
    by (simp add: route_operation_def Let_def case_prod_beta split: option.splits)
  have "table_grows schemas ?s1"
    by (cases ?body) (simp_all add: table_grows_refl conversion_grows)
  then show ?thesis
    unfolding eq using convert_responses_grows table_grows_trans by blast
qed

lemma ensure_path_item_ok: "paths_ok paths \<Longrightarrow> paths_ok (ensure_path_item inh path paths)"
proof -
  assume ok: "paths_ok paths"
  show ?thesis
  proof (cases "js_has inh paths path \<or> path = ''__proto__''")
    case True
    then show ?thesis using ok by (auto simp: ensure_path_item_def js_set_def)
  next
    case False
    then have e: "ensure_path_item inh path paths = js_set path (JObj []) paths"
      and np: "path \<noteq> ''__proto__''"
      by (simp_all add: ensure_path_item_def)
    have "map_of (js_set path (JObj []) paths) k = Some v \<Longrightarrow> \<exists>item. v = JObj item" for k v
      using ok np by (cases "k = path") (auto simp: paths_ok_def js_set_def update_conv')
    moreover have "''__proto__'' \<notin> own_keys (js_set path (JObj []) paths)"
      using ok np by (simp add: own_keys_js_set paths_ok_def)
    ultimately show ?thesis unfolding e paths_ok_def by blast
  qed
qed

lemma ensure_path_item_keeps: "map_of paths k = Some v \<Longrightarrow> map_of (ensure_path_item inh path paths) k = Some v"
  by (auto simp: ensure_path_item_def js_set_def update_conv' js_has_def own_keys_map_of)

lemma ensure_path_item_creates:
  assumes "paths_ok paths" and "path \<notin> set inh" and "path \<noteq> ''__proto__''"
  shows "\<exists>item. map_of (ensure_path_item inh path paths) path = Some (JObj item)"
proof (cases "path \<in> own_keys paths")
  case True
  then have "ensure_path_item inh path paths = paths" by (simp add: ensure_path_item_def js_has_def)
  then show ?thesis using True assms(1) by (auto simp: paths_ok_def own_keys_map_of)
next
  case False
  then have "ensure_path_item inh path paths = js_set path (JObj []) paths"
    using assms(2) by (simp add: ensure_path_item_def js_has_def)
  then show ?thesis using assms(3) by (simp add: map_of_js_set_same)
qed

lemma assign_operation_files:
  assumes "map_of paths path = Some (JObj item)" and "path \<noteq> ''__proto__''"
  shows "filed (fst (assign_operation path (method_name m) operation (paths, inh))) path (method_name m)"
  using assms
  by (simp add: assign_operation_def filed_def map_of_js_set_same own_keys_js_set method_name_not_proto)

lemma assign_operation_keeps:
  assumes "filed paths k m'"
  shows "filed (fst (assign_operation path m operation (paths, inh))) k m'"
proof (cases "map_of paths path")
  case None
  then show ?thesis using assms by (simp add: assign_operation_def)
next
  case (Some item)
  show ?thesis
  proof (cases "k = path \<and> path \<noteq> ''__proto__''")
    case True
    obtain it where it: "map_of paths path = Some (JObj it)" and m': "m' \<in> own_keys it"
      using assms True by (auto simp: filed_def)
    have "m' \<in> own_keys (js_set m operation it)"
      using m' by (cases "m = ''__proto__''") (simp_all add: own_keys_js_set own_keys_js_set_proto)
    then show ?thesis
      using True it by (simp add: assign_operation_def filed_def map_of_js_set_same)
  next
    case False
    then have "map_of (js_set path (set_prop m operation item) paths) k = map_of paths k"
      by (auto simp: js_set_def update_conv')
    then show ?thesis using assms Some by (simp add: assign_operation_def filed_def)
  qed
qed

lemma assign_operation_ok:
  assumes "paths_ok paths"
  shows "paths_ok (fst (assign_operation path m operation (paths, inh)))"
proof (cases "map_of paths path")
  case None
  then show ?thesis using assms by (simp add: assign_operation_def)
next
  case (Some item)
  then obtain it where it: "item = JObj it" using assms by (auto simp: paths_ok_def)
  have np: "path \<noteq> ''__proto__''" using Some assms by (auto simp: paths_ok_def own_keys_map_of)
  have "map_of (js_set path (JObj (js_set m operation it)) paths) k = Some v \<Longrightarrow> \<exists>i. v = JObj i" for k v
    using assms np by (cases "k = path") (auto simp: paths_ok_def js_set_def update_conv')
  moreover have "''__proto__'' \<notin> own_keys (js_set path (JObj (js_set m operation it)) paths)"
    using assms np by (simp add: own_keys_js_set paths_ok_def)
  ultimately show ?thesis using Some it unfolding paths_ok_def by (simp add: assign_operation_def)
qed

lemma assign_operation_inherited:
  "set inh \<subseteq> set (snd (assign_operation path m operation (paths, inh)))"
  by (auto simp: assign_operation_def split: option.splits)

section \<open>The loop of the document generator\<close>

lemma route_step_eq:
  "route_step options route (paths, schemas, inh) =
     (fst (assign_operation (path_key options route) (method_name (r_method route))
             (fst (route_operation inh route schemas))
             (ensure_path_item inh (path_key options route) paths, inh)),
      snd (route_operation inh route schemas),
      snd (assign_operation (path_key options route) (method_name (r_method route))
             (fst (route_operation inh route schemas))
             (ensure_path_item inh (path_key options route) paths, inh)))"
  by (simp add: route_step_def Let_def case_prod_beta)

lemma filed_ensure: "filed paths k m \<Longrightarrow> filed (ensure_path_item inh path paths) k m"
  using ensure_path_item_keeps by (fastforce simp: filed_def)

lemma route_step_ok: "paths_ok paths \<Longrightarrow> paths_ok (fst (route_step options route (paths, schemas, inh)))"
  by (simp add: route_step_eq assign_operation_ok ensure_path_item_ok)

lemma route_step_keeps:
  "filed paths k m \<Longrightarrow> filed (fst (route_step options route (paths, schemas, inh))) k m"
  by (simp add: route_step_eq assign_operation_keeps filed_ensure)

lemma route_step_files:
  assumes "paths_ok paths" and "path_key options route \<notin> set inh"
    and "path_key options route \<noteq> ''__proto__''"
  shows "filed (fst (route_step options route (paths, schemas, inh)))
           (path_key options route) (method_name (r_method route))"
proof -
  obtain item where "map_of (ensure_path_item inh (path_key options route) paths) (path_key options route)
                       = Some (JObj item)"
    using ensure_path_item_creates [OF assms] by blast
  then show ?thesis
    using assign_operation_files [OF _ assms(3)] by (simp add: route_step_eq)
qed

lemma route_step_inherited: "set inh \<subseteq> set (snd (snd (route_step options route (paths, schemas, inh))))"
  using assign_operation_inherited by (simp add: route_step_eq)

lemma route_step_grows: "table_grows schemas (fst (snd (route_step options route (paths, schemas, inh))))"
  by (simp add: route_step_eq route_operation_grows)

lemma loop_facts:
  "set (snd (snd st)) \<subseteq> set (snd (snd (fold (route_step options) defs st)))
   \<and> table_grows (fst (snd st)) (fst (snd (fold (route_step options) defs st)))
   \<and> (paths_ok (fst st) \<longrightarrow> paths_ok (fst (fold (route_step options) defs st)))
   \<and> (\<forall>k m. filed (fst st) k m \<longrightarrow> filed (fst (fold (route_step options) defs st)) k m)"
proof (induction defs arbitrary: st)
  case Nil
  then show ?case by (simp add: table_grows_refl)
next
  case (Cons r defs)
  obtain paths schemas inh where st: "st = (paths, schemas, inh)" by (cases st) auto
  let ?st1 = "route_step options r (paths, schemas, inh)"
  note ih = Cons [of ?st1]
  have 1: "set inh \<subseteq> set (snd (snd ?st1))" by (rule route_step_inherited)
  have 2: "table_grows schemas (fst (snd ?st1))" by (rule route_step_grows)
  have 3: "paths_ok paths \<longrightarrow> paths_ok (fst ?st1)" by (simp add: route_step_ok)
  have 4: "\<forall>k m. filed paths k m \<longrightarrow> filed (fst ?st1) k m" by (simp add: route_step_keeps)
  show ?case
    unfolding st using ih 1 2 3 4 table_grows_trans by fastforce
qed

lemma loop_files:
  assumes "route \<in> set defs" and "paths_ok (fst st)"
    and "path_key options route \<notin> set (snd (snd (fold (route_step options) defs st)))"
    and "path_key options route \<noteq> ''__proto__''"
  shows "filed (fst (fold (route_step options) defs st))
           (path_key options route) (method_name (r_method route))"
  using assms(1,2,3)
proof (induction defs arbitrary: st)
  case Nil
  then show ?case by simp
next
  case (Cons r defs)
  obtain paths schemas inh where st: "st = (paths, schemas, inh)" by (cases st) auto
  let ?st1 = "route_step options r (paths, schemas, inh)"
  have ok1: "paths_ok (fst ?st1)" using Cons.prems(2) st by (simp add: route_step_ok)
  have fin: "path_key options route \<notin> set (snd (snd (fold (route_step options) defs ?st1)))"
    using Cons.prems(3) st by simp
  show ?case
  proof (cases "route = r")
    case True
    have "set (snd (snd ?st1)) \<subseteq> set (snd (snd (fold (route_step options) defs ?st1)))"
      using loop_facts [of ?st1 options defs] by blast
    then have "path_key options route \<notin> set inh"
      using fin route_step_inherited [of inh options r paths schemas] by blast
    then have "filed (fst ?st1) (path_key options route) (method_name (r_method route))"
      using route_step_files [of paths options route inh schemas] Cons.prems(2) assms(4) st True by simp
    then have "filed (fst (fold (route_step options) defs ?st1))
                 (path_key options route) (method_name (r_method route))"
      using loop_facts [of ?st1 options defs] by blast
    then show ?thesis using st by simp
  next
    case False
    then have "route \<in> set defs" using Cons.prems(1) by simp
    then show ?thesis
      using Cons.IH [of ?st1] ok1 fin st by simp
  qed
qed

lemma proto_inherited: "''__proto__'' \<in> set (inherited_names defs options)"
proof -
  have "set object_prototype_keys \<subseteq> set (inherited_names defs options)"
    using loop_facts [of "([], [], object_prototype_keys)" options defs]
    by (simp add: inherited_names_def)
  then show ?thesis by (auto simp: object_prototype_keys_def)
qed

lemma build_document_paths:
  "d_paths (build_document defs options) = fst (fold (route_step options) defs ([], [], object_prototype_keys))"
  by (simp add: build_document_def case_prod_beta)

lemma build_document_components:
  "d_components (build_document defs options) =
     (if fst (snd (fold (route_step options) defs ([], [], object_prototype_keys))) \<noteq> []
      then Some (fst (snd (fold (route_step options) defs ([], [], object_prototype_keys))))
      else None)"
  by (simp add: build_document_def case_prod_beta)

lemma route_filed_under_rewritten_path:
  assumes "route \<in> set defs"
    and "path_key options route \<notin> set (inherited_names defs options)"
  shows "filed (d_paths (build_document defs options)) (path_key options route) (method_name (r_method route))"
proof -
  have "path_key options route \<noteq> ''__proto__''"
    using assms(2) proto_inherited by metis
  moreover have "paths_ok (fst ([], [], object_prototype_keys))"
    by (simp add: paths_ok_def own_keys_def)
  ultimately show ?thesis
    unfolding build_document_paths
    using loop_files [OF assms(1), of "([], [], object_prototype_keys)" options] assms(2)
    by (simp add: inherited_names_def)
qed

section \<open>Use sites of named schemas\<close>

text \<open>What a conversion that reaches the \<open>switch\<close> returns and leaves in the table.\<close>

lemma conversion_table:
  assumes "\<not> (ctx \<and> effective_name schema \<noteq> [] \<and> \<not> asComponent)"
  shows "snd (zodToOpenApiSchema inh schema ctx asComponent schemas) =
           (case z_def (u_schema (unwrapZodType schema)) of
              ZodArray t \<Rightarrow> snd (zodToOpenApiSchema inh t ctx False schemas)
            | ZodObject shape \<Rightarrow>
                snd (snd (convert_shape (\<lambda>s st. zodToOpenApiSchema inh s ctx False st) shape ([], [], schemas)))
            | ZodUnion options \<Rightarrow>
                snd (map_state (\<lambda>s st. zodToOpenApiSchema inh s ctx False st) options schemas)
            | _ \<Rightarrow> schemas)"
proof -
  have neg: "\<not> (ctx \<and> name_of (u_openApiName (unwrapZodType schema)) \<noteq> [] \<and> \<not> asComponent)"
    using assms by (simp add: effective_name_def)
  show ?thesis
    by (subst zodToOpenApiSchema.simps)
       (simp add: Let_def case_prod_beta if_not_P [OF neg] split: zod_def.splits)
qed

lemma conversion_fragment:
  assumes "\<not> (ctx \<and> effective_name schema \<noteq> [] \<and> \<not> asComponent)"
  shows "z_def (u_schema (unwrapZodType schema)) = ZodArray t \<Longrightarrow>
           fst (zodToOpenApiSchema inh schema ctx asComponent schemas) =
             decorate (u_description (unwrapZodType schema)) (u_isNullable (unwrapZodType schema))
               (JObj [(''type'', JStr ''array''),
                      (''items'', fst (zodToOpenApiSchema inh t ctx False schemas))])"
    and "z_def (u_schema (unwrapZodType schema)) = ZodUnion options \<Longrightarrow>
           fst (zodToOpenApiSchema inh schema ctx asComponent schemas) =
             decorate (u_description (unwrapZodType schema)) (u_isNullable (unwrapZodType schema))
               (JObj [(''oneOf'',
                       JArr (fst (map_state (\<lambda>s st. zodToOpenApiSchema inh s ctx False st) options schemas)))])"
    and "z_def (u_schema (unwrapZodType schema)) = ZodObject shape \<Longrightarrow>
           fst (zodToOpenApiSchema inh schema ctx asComponent schemas) =
             (let (properties, required, schemas1) =
                    convert_shape (\<lambda>s st. zodToOpenApiSchema inh s ctx False st) shape ([], [], schemas)
              in decorate (u_description (unwrapZodType schema)) (u_isNullable (unwrapZodType schema))
                   (JObj ([(''type'', JStr ''object''), (''properties'', JObj properties)]
                          @ (if required \<noteq> [] then [(''required'', JArr (map JStr required))] else []))))"
proof -
  have neg: "\<not> (ctx \<and> name_of (u_openApiName (unwrapZodType schema)) \<noteq> [] \<and> \<not> asComponent)"
    using assms by (simp add: effective_name_def)
  show "z_def (u_schema (unwrapZodType schema)) = ZodArray t \<Longrightarrow>
           fst (zodToOpenApiSchema inh schema ctx asComponent schemas) =
             decorate (u_description (unwrapZodType schema)) (u_isNullable (unwrapZodType schema))
               (JObj [(''type'', JStr ''array''),
                      (''items'', fst (zodToOpenApiSchema inh t ctx False schemas))])"
    by (subst zodToOpenApiSchema.simps) (simp add: Let_def case_prod_beta if_not_P [OF neg])
  show "z_def (u_schema (unwrapZodType schema)) = ZodUnion options \<Longrightarrow>
           fst (zodToOpenApiSchema inh schema ctx asComponent schemas) =
             decorate (u_description (unwrapZodType schema)) (u_isNullable (unwrapZodType schema))
               (JObj [(''oneOf'',
                       JArr (fst (map_state (\<lambda>s st. zodToOpenApiSchema inh s ctx False st) options schemas)))])"
    by (subst zodToOpenApiSchema.simps) (simp add: Let_def case_prod_beta if_not_P [OF neg])
  show "z_def (u_schema (unwrapZodType schema)) = ZodObject shape \<Longrightarrow>
           fst (zodToOpenApiSchema inh schema ctx asComponent schemas) =
             (let (properties, required, schemas1) =
                    convert_shape (\<lambda>s st. zodToOpenApiSchema inh s ctx False st) shape ([], [], schemas)
              in decorate (u_description (unwrapZodType schema)) (u_isNullable (unwrapZodType schema))
                   (JObj ([(''type'', JStr ''object''), (''properties'', JObj properties)]
                          @ (if required \<noteq> [] then [(''required'', JArr (map JStr required))] else []))))"
    by (subst zodToOpenApiSchema.simps) (simp add: Let_def case_prod_beta if_not_P [OF neg])
qed

lemma map_state_inv:
  assumes step: "\<And>x s. x \<in> set xs \<Longrightarrow> I s \<Longrightarrow> I (snd (f x s)) \<and> Q x (snd (f x s))"
    and grows: "\<And>x s. x \<in> set xs \<Longrightarrow> table_grows s (snd (f x s))"
    and mono: "\<And>x s s'. Q x s \<Longrightarrow> table_grows s s' \<Longrightarrow> Q x s'"
    and "I s"
  shows "I (snd (map_state f xs s)) \<and> (\<forall>x \<in> set xs. Q x (snd (map_state f xs s)))"
  using assms
proof (induction xs arbitrary: s)
  case Nil
  then show ?case by simp
next
  case (Cons x xs)
  obtain y s1 where f: "f x s = (y, s1)" by (cases "f x s")
  have 1: "I s1 \<and> Q x s1" using Cons.prems(1) [of x s] Cons.prems(4) f by simp
  have ih: "I (snd (map_state f xs s1)) \<and> (\<forall>x \<in> set xs. Q x (snd (map_state f xs s1)))"
  proof (rule Cons.IH)
    show "I s1" using 1 by simp
  qed (simp_all add: Cons.prems)
  have g: "table_grows s1 (snd (map_state f xs s1))"
    by (rule map_state_grows) (simp add: Cons.prems(2))
  have "Q x (snd (map_state f xs s1))" using Cons.prems(3) [of x s1] 1 g by blast
  then show ?case using ih f by (simp add: case_prod_beta)
qed

lemma convert_shape_inv:
  assumes step: "\<And>k v st. (k, v) \<in> set shape \<Longrightarrow> I st
                   \<Longrightarrow> I (snd (conv (u_schema (unwrapZodType v)) st))
                       \<and> Q (u_schema (unwrapZodType v)) (snd (conv (u_schema (unwrapZodType v)) st))"
    and grows: "\<And>k v st. (k, v) \<in> set shape \<Longrightarrow> table_grows st (snd (conv (u_schema (unwrapZodType v)) st))"
    and mono: "\<And>x s s'. Q x s \<Longrightarrow> table_grows s s' \<Longrightarrow> Q x s'"
    and "I s"
  shows "I (snd (snd (convert_shape conv shape (p, r, s))))
         \<and> (\<forall>(k, v) \<in> set shape. Q (u_schema (unwrapZodType v)) (snd (snd (convert_shape conv shape (p, r, s)))))"
  using assms
proof (induction shape arbitrary: p r s)
  case Nil
  then show ?case by simp
next
  case (Cons kv shape)
  obtain key val where kv: "kv = (key, val)" by (cases kv)
  let ?x = "u_schema (unwrapZodType val)"
  obtain y s1 where c: "conv ?x s = (y, s1)" by (cases "conv ?x s")
  have 1: "I s1 \<and> Q ?x s1" using Cons.prems(1) [of key val s] Cons.prems(4) kv c by simp
  have ih: "I (snd (snd (convert_shape conv shape (p', r', s1))))
         \<and> (\<forall>(k, v) \<in> set shape. Q (u_schema (unwrapZodType v)) (snd (snd (convert_shape conv shape (p', r', s1)))))"
    for p' r'
  proof (rule Cons.IH)
    show "I s1" using 1 by simp
    show "I (snd (conv (u_schema (unwrapZodType v)) st))
            \<and> Q (u_schema (unwrapZodType v)) (snd (conv (u_schema (unwrapZodType v)) st))"
      if "(k, v) \<in> set shape" and "I st" for k v st
      using Cons.prems(1) [of k v st] that by simp
    show "table_grows st (snd (conv (u_schema (unwrapZodType v)) st))"
      if "(k, v) \<in> set shape" for k v st
      using Cons.prems(2) [of k v st] that by simp
    show "Q x s'" if "Q x s" and "table_grows s s'" for x s s'
      using Cons.prems(3) that by blast
  qed
  have g: "table_grows s1 (snd (snd (convert_shape conv shape (p', r', s1))))" for p' r'
  proof (rule convert_shape_grows)
    show "table_grows st (snd (conv (u_schema (unwrapZodType v)) st))"
      if "(k, v) \<in> set shape" for k v st
      using Cons.prems(2) [of k v st] that by simp
  qed
  have q: "Q ?x (snd (snd (convert_shape conv shape (p', r', s1))))" for p' r'
    using Cons.prems(3) [of ?x s1] 1 g by blast
  show ?case unfolding kv using ih q c by (simp add: Let_def)
qed

text \<open>A conversion with context enters the names at its use sites.\<close>

lemma own_keys_js_set_mono: "own_keys obj \<subseteq> own_keys (js_set k v obj)"
  by (cases "k = ''__proto__''") (auto simp: own_keys_js_set own_keys_js_set_proto)

lemma registered_keys:
  "own_keys T \<subseteq> own_keys T' \<Longrightarrow> registered inh T s \<Longrightarrow> registered inh T' s"
  by (auto simp: registered_def)

lemma registered_mono:
  "registered inh T s \<Longrightarrow> table_grows T T' \<Longrightarrow> registered inh T' s"
  using table_grows_keys by (fastforce simp: registered_def)

lemma nested_calls_array: "z_def (u_schema (unwrapZodType s)) = ZodArray t \<Longrightarrow> nested_calls s = [t]"
  by (simp add: nested_calls_def)

lemma nested_calls_object:
  "z_def (u_schema (unwrapZodType s)) = ZodObject shape
   \<Longrightarrow> nested_calls s = map (\<lambda>(key, val). u_schema (unwrapZodType val)) shape"
  by (simp add: nested_calls_def)

lemma nested_calls_union: "z_def (u_schema (unwrapZodType s)) = ZodUnion options \<Longrightarrow> nested_calls s = options"
  by (simp add: nested_calls_def)

lemma use_sites_step:
  "ctx \<longrightarrow>
     (\<not> asComponent \<longrightarrow>
        (\<forall>s' \<in> set (use_sites schema).
           registered inh (snd (zodToOpenApiSchema inh schema ctx asComponent schemas)) s'))
     \<and> (asComponent \<or> effective_name schema = [] \<or> \<not> js_has inh schemas (effective_name schema) \<longrightarrow>
        (\<forall>c \<in> set (nested_calls schema). \<forall>s' \<in> set (use_sites c).
           registered inh (snd (zodToOpenApiSchema inh schema ctx asComponent schemas)) s'))"
proof (induction inh schema ctx asComponent schemas rule: zodToOpenApiSchema.induct)
  case (1 inh schema ctx asComponent schemas)
  let ?u = "unwrapZodType schema"
  let ?name = "name_of (u_openApiName ?u)"
  let ?T = "snd (zodToOpenApiSchema inh schema ctx asComponent schemas)"
  note named = 1(1) [OF refl refl refl refl refl]
  note arr = 1(2) [OF refl refl refl refl refl]
  note obj = 1(3) [OF refl refl refl refl refl]
  note uni = 1(4) [OF refl refl refl refl refl]
  have en: "effective_name schema = ?name" by (simp add: effective_name_def)
  show ?case
  proof (intro impI)
    assume ctx: ctx
    show "(\<not> asComponent \<longrightarrow> (\<forall>s' \<in> set (use_sites schema). registered inh ?T s'))
          \<and> (asComponent \<or> effective_name schema = [] \<or> \<not> js_has inh schemas (effective_name schema) \<longrightarrow>
             (\<forall>c \<in> set (nested_calls schema). \<forall>s' \<in> set (use_sites c). registered inh ?T s'))"
    proof (cases "ctx \<and> ?name \<noteq> [] \<and> \<not> asComponent")
      case True
      then have n: "?name \<noteq> []" and na: "\<not> asComponent" by simp_all
      have us: "use_sites schema = [schema]"
        using n by (subst use_sites.simps) (simp add: en)
      have self: "registered inh (snd (zodToOpenApiSchema inh schema True False schemas)) schema"
        using named_registered [OF refl n, of inh schemas] by (auto simp: registered_def en)
      have nested: "\<forall>c \<in> set (nested_calls schema). \<forall>s' \<in> set (use_sites c).
                      registered inh (snd (zodToOpenApiSchema inh schema True False schemas)) s'"
        if nohas: "\<not> js_has inh schemas ?name"
      proof -
        have ih: "\<forall>c \<in> set (nested_calls schema). \<forall>s' \<in> set (use_sites c).
                    registered inh (snd (zodToOpenApiSchema inh schema True True schemas)) s'"
          using named [OF True nohas] ctx by simp
        have "own_keys (snd (zodToOpenApiSchema inh schema True True schemas))
                \<subseteq> own_keys (snd (zodToOpenApiSchema inh schema True False schemas))"
          using named_use_site(3) [OF refl n nohas] own_keys_js_set_mono by simp
        then show ?thesis using ih registered_keys by blast
      qed
      show ?thesis using us self nested ctx na n by (simp add: en)
    next
      case False
      then have neg: "\<not> (ctx \<and> effective_name schema \<noteq> [] \<and> \<not> asComponent)" by (simp add: en)
      note tbl = conversion_table [OF neg, of inh schemas]
      have nested: "\<forall>c \<in> set (nested_calls schema). \<forall>s' \<in> set (use_sites c). registered inh ?T s'"
      proof (cases "z_def (u_schema ?u)")
        case (ZodArray t)
        have "\<forall>s' \<in> set (use_sites t). registered inh (snd (zodToOpenApiSchema inh t ctx False schemas)) s'"
          using arr [OF False ZodArray] ctx by simp
        then show ?thesis using tbl ZodArray by (simp add: nested_calls_array)
      next
        case (ZodObject shape)
        let ?conv = "\<lambda>s st. zodToOpenApiSchema inh s ctx False st"
        have "True \<and> (\<forall>(k, v) \<in> set shape.
                 (\<forall>s' \<in> set (use_sites (u_schema (unwrapZodType v))).
                    registered inh (snd (snd (convert_shape ?conv shape ([], [], schemas)))) s'))"
        proof (rule convert_shape_inv [where I = "\<lambda>st. True"
                 and Q = "\<lambda>x st. \<forall>s' \<in> set (use_sites x). registered inh st s'"])
          show "True \<and> (\<forall>s' \<in> set (use_sites (u_schema (unwrapZodType v))).
                   registered inh (snd (?conv (u_schema (unwrapZodType v)) st)) s')"
            if "(k, v) \<in> set shape" for k v st
            using obj [OF False ZodObject that, of st] ctx by simp
          show "table_grows st (snd (?conv (u_schema (unwrapZodType v)) st))" for v st
            by (rule conversion_grows)
          show "\<forall>y \<in> set (use_sites x). registered inh t' y"
            if "\<forall>y \<in> set (use_sites x). registered inh t y" and "table_grows t t'" for x t t'
            using that registered_mono by blast
        qed simp
        then show ?thesis using tbl ZodObject by (auto simp: nested_calls_object)
      next
        case (ZodUnion options)
        let ?conv = "\<lambda>s st. zodToOpenApiSchema inh s ctx False st"
        have "True \<and> (\<forall>x \<in> set options. \<forall>s' \<in> set (use_sites x).
                    registered inh (snd (map_state ?conv options schemas)) s')"
        proof (rule map_state_inv [where I = "\<lambda>st. True"
                 and Q = "\<lambda>x st. \<forall>s' \<in> set (use_sites x). registered inh st s'"])
          show "True \<and> (\<forall>s' \<in> set (use_sites x). registered inh (snd (?conv x s)) s')"
            if "x \<in> set options" for x s
            using uni [OF False ZodUnion that, of s] ctx by simp
          show "table_grows s (snd (?conv x s))" for x s
            by (rule conversion_grows)
          show "\<forall>y \<in> set (use_sites x). registered inh t' y"
            if "\<forall>y \<in> set (use_sites x). registered inh t y" and "table_grows t t'" for x t t'
            using that registered_mono by blast
        qed simp
        then show ?thesis using tbl ZodUnion by (simp add: nested_calls_union)
      qed (simp_all add: nested_calls_def)
      have first: "\<forall>s' \<in> set (use_sites schema). registered inh ?T s'" if "\<not> asComponent"
      proof -
        have e: "effective_name schema = []" using False ctx that by (simp add: en)
        have "use_sites schema = schema # concat (map use_sites (nested_calls schema))"
          using e by (subst use_sites.simps) simp
        moreover have "registered inh ?T schema" using e by (simp add: registered_def)
        ultimately show ?thesis using nested by auto
      qed
      show ?thesis using nested first by blast
    qed
  qed
qed

text \<open>When schemas of the same name have the same nested calls, the table stays closed.\<close>

lemma covered_unfold:
  "covered T a \<longleftrightarrow>
     (effective_name a \<noteq> [] \<longrightarrow> effective_name a \<in> own_keys T)
     \<and> (\<forall>c \<in> set (nested_calls a). covered T c)"
  unfolding covered_def by (subst all_sites.simps) auto

lemma covered_keys: "own_keys T \<subseteq> own_keys T' \<Longrightarrow> covered T a \<Longrightarrow> covered T' a"
  by (auto simp: covered_def)

lemma covered_mono: "covered T a \<Longrightarrow> table_grows T T' \<Longrightarrow> covered T' a"
  using table_grows_keys by (fastforce simp: covered_def)

lemma deep_step:
  assumes sub: "\<And>a. a \<in> S \<Longrightarrow> set (nested_calls a) \<subseteq> S"
    and same: "\<And>a b. a \<in> S \<Longrightarrow> b \<in> S \<Longrightarrow> effective_name a = effective_name b
                 \<Longrightarrow> effective_name a \<noteq> [] \<Longrightarrow> nested_calls a = nested_calls b"
  shows "ctx \<longrightarrow> (\<forall>a \<in> S. effective_name a \<notin> set inh \<and> effective_name a \<noteq> ''__proto__'')
         \<longrightarrow> schema \<in> S \<longrightarrow> closed_table S schemas
         \<longrightarrow> closed_table S (snd (zodToOpenApiSchema inh schema ctx asComponent schemas))
             \<and> (\<not> asComponent \<longrightarrow> covered (snd (zodToOpenApiSchema inh schema ctx asComponent schemas)) schema)
             \<and> (asComponent \<longrightarrow>
                  (\<forall>c \<in> set (nested_calls schema).
                     covered (snd (zodToOpenApiSchema inh schema ctx asComponent schemas)) c))"
proof (induction inh schema ctx asComponent schemas rule: zodToOpenApiSchema.induct)
  case (1 inh schema ctx asComponent schemas)
  let ?u = "unwrapZodType schema"
  let ?name = "name_of (u_openApiName ?u)"
  let ?T = "snd (zodToOpenApiSchema inh schema ctx asComponent schemas)"
  note named = 1(1) [OF refl refl refl refl refl]
  note arr = 1(2) [OF refl refl refl refl refl]
  note obj = 1(3) [OF refl refl refl refl refl]
  note uni = 1(4) [OF refl refl refl refl refl]
  have en: "effective_name schema = ?name" by (simp add: effective_name_def)
  show ?case
  proof (intro impI)
    assume ctx: ctx
      and ok: "\<forall>a \<in> S. effective_name a \<notin> set inh \<and> effective_name a \<noteq> ''__proto__''"
      and mem: "schema \<in> S"
      and cl: "closed_table S schemas"
    show "closed_table S ?T \<and> (\<not> asComponent \<longrightarrow> covered ?T schema)
          \<and> (asComponent \<longrightarrow> (\<forall>c \<in> set (nested_calls schema). covered ?T c))"
    proof (cases "ctx \<and> ?name \<noteq> [] \<and> \<not> asComponent")
      case True
      then have n: "?name \<noteq> []" and na: "\<not> asComponent" by simp_all
      have ninh: "?name \<notin> set inh" and np: "?name \<noteq> ''__proto__''"
        using ok mem en by auto
      show ?thesis
      proof (cases "js_has inh schemas ?name")
        case has: True
        have T: "snd (zodToOpenApiSchema inh schema True False schemas) = schemas"
          by (rule named_use_site(2) [OF refl n has])
        have "?name \<in> own_keys schemas" using has ninh by (simp add: js_has_def)
        then have "covered schemas schema" using cl mem n en by (simp add: closed_table_def)
        then show ?thesis using T cl ctx na by simp
      next
        case nohas: False
        let ?T1 = "snd (zodToOpenApiSchema inh schema True True schemas)"
        have ih: "closed_table S ?T1 \<and> (\<forall>c \<in> set (nested_calls schema). covered ?T1 c)"
          using named [OF True nohas] ctx ok mem cl by simp
        have T: "snd (zodToOpenApiSchema inh schema True False schemas)
                   = js_set ?name (fst (zodToOpenApiSchema inh schema True True schemas)) ?T1"
          by (rule named_use_site(3) [OF refl n nohas])
        let ?T2 = "js_set ?name (fst (zodToOpenApiSchema inh schema True True schemas)) ?T1"
        have keys: "own_keys ?T2 = insert ?name (own_keys ?T1)"
          by (rule own_keys_js_set [OF np])
        have nest: "\<forall>c \<in> set (nested_calls schema). covered ?T2 c"
          using ih keys covered_keys [of ?T1 ?T2] by blast
        have self: "covered ?T2 schema"
          using nest keys by (subst covered_unfold) (simp add: en)
        have "covered ?T2 a" if a: "a \<in> S" and an: "effective_name a \<noteq> []"
          and ak: "effective_name a \<in> own_keys ?T2" for a
        proof (cases "effective_name a = ?name")
          case True
          then have "nested_calls a = nested_calls schema"
            using same [OF a mem] an en by simp
          then show ?thesis
            using nest keys True by (subst covered_unfold) simp
        next
          case False
          then have "effective_name a \<in> own_keys ?T1" using ak keys by simp
          then have "covered ?T1 a" using ih a an by (simp add: closed_table_def)
          then show ?thesis using keys covered_keys [of ?T1 ?T2] by blast
        qed
        then have "closed_table S ?T2" by (simp add: closed_table_def)
        then show ?thesis using T self ctx na by simp
      qed
    next
      case False
      then have neg: "\<not> (ctx \<and> effective_name schema \<noteq> [] \<and> \<not> asComponent)" by (simp add: en)
      note tbl = conversion_table [OF neg, of inh schemas]
      have nested: "closed_table S ?T \<and> (\<forall>c \<in> set (nested_calls schema). covered ?T c)"
      proof (cases "z_def (u_schema ?u)")
        case (ZodArray t)
        have "t \<in> S" using sub [OF mem] ZodArray by (simp add: nested_calls_array)
        then have "closed_table S (snd (zodToOpenApiSchema inh t ctx False schemas))
                   \<and> covered (snd (zodToOpenApiSchema inh t ctx False schemas)) t"
          using arr [OF False ZodArray] ctx ok cl by simp
        then show ?thesis using tbl ZodArray by (simp add: nested_calls_array)
      next
        case (ZodObject shape)
        let ?conv = "\<lambda>s st. zodToOpenApiSchema inh s ctx False st"
        have "closed_table S (snd (snd (convert_shape ?conv shape ([], [], schemas))))
              \<and> (\<forall>(k, v) \<in> set shape.
                    covered (snd (snd (convert_shape ?conv shape ([], [], schemas)))) (u_schema (unwrapZodType v)))"
        proof (rule convert_shape_inv [where I = "closed_table S" and Q = "\<lambda>x st. covered st x"])
          show "closed_table S (snd (?conv (u_schema (unwrapZodType v)) st))
                \<and> covered (snd (?conv (u_schema (unwrapZodType v)) st)) (u_schema (unwrapZodType v))"
            if kv: "(k, v) \<in> set shape" and st: "closed_table S st" for k v st
          proof -
            have "u_schema (unwrapZodType v) \<in> S"
              using sub [OF mem] ZodObject kv by (force simp: nested_calls_object)
            then show ?thesis using obj [OF False ZodObject kv, of st] ctx ok st by simp
          qed
          show "table_grows st (snd (?conv (u_schema (unwrapZodType v)) st))" for v st
            by (rule conversion_grows)
          show "covered t' x" if "covered t x" and "table_grows t t'" for x t t'
            using that by (rule covered_mono)
          show "closed_table S schemas" by (rule cl)
        qed
        then show ?thesis using tbl ZodObject by (auto simp: nested_calls_object)
      next
        case (ZodUnion options)
        let ?conv = "\<lambda>s st. zodToOpenApiSchema inh s ctx False st"
        have "closed_table S (snd (map_state ?conv options schemas))
              \<and> (\<forall>x \<in> set options. covered (snd (map_state ?conv options schemas)) x)"
        proof (rule map_state_inv [where I = "closed_table S" and Q = "\<lambda>x st. covered st x"])
          show "closed_table S (snd (?conv x s)) \<and> covered (snd (?conv x s)) x"
            if x: "x \<in> set options" and st: "closed_table S s" for x s
          proof -
            have "x \<in> S" using sub [OF mem] ZodUnion x by (auto simp: nested_calls_union)
            then show ?thesis using uni [OF False ZodUnion x, of s] ctx ok st by simp
          qed
          show "table_grows s (snd (?conv x s))" for x s
            by (rule conversion_grows)
          show "covered t' x" if "covered t x" and "table_grows t t'" for x t t'
            using that by (rule covered_mono)
          show "closed_table S schemas" by (rule cl)
        qed
        then show ?thesis using tbl ZodUnion by (simp add: nested_calls_union)
      qed (use cl tbl in \<open>simp_all add: nested_calls_def\<close>)
      have first: "covered ?T schema" if "\<not> asComponent"
      proof -
        have e: "effective_name schema = []" using False ctx that by (simp add: en)
        show ?thesis using nested e by (subst covered_unfold) simp
      qed
      show ?thesis using nested first by blast
    qed
  qed
qed

text \<open>An invariant of the table through the responses, a route and the loop over the routes.\<close>

lemma convert_responses_inv:
  assumes step: "\<And>status s st. (status, s) \<in> set rs \<Longrightarrow> I st
                   \<Longrightarrow> I (snd (zodToOpenApiSchema inh s True False st))
                       \<and> Q s (snd (zodToOpenApiSchema inh s True False st))"
    and mono: "\<And>x t t'. Q x t \<Longrightarrow> table_grows t t' \<Longrightarrow> Q x t'"
    and "I schemas"
  shows "I (snd (convert_responses inh rs (acc, schemas)))
         \<and> (\<forall>(status, s) \<in> set rs. Q s (snd (convert_responses inh rs (acc, schemas))))"
  using assms
proof (induction rs arbitrary: acc schemas)
  case Nil
  then show ?case by simp
next
  case (Cons a rs)
  obtain status schema where a: "a = (status, schema)" by (cases a)
  obtain y st1 where c: "zodToOpenApiSchema inh schema True False schemas = (y, st1)"
    by (cases "zodToOpenApiSchema inh schema True False schemas")
  have 1: "I st1 \<and> Q schema st1" using Cons.prems(1) [of status schema schemas] Cons.prems(3) a c by simp
  have ih: "I (snd (convert_responses inh rs (acc', st1)))
         \<and> (\<forall>(status, s) \<in> set rs. Q s (snd (convert_responses inh rs (acc', st1))))" for acc'
  proof (rule Cons.IH)
    show "I st1" using 1 by simp
    show "I (snd (zodToOpenApiSchema inh s True False st)) \<and> Q s (snd (zodToOpenApiSchema inh s True False st))"
      if "(status, s) \<in> set rs" and "I st" for status s st
      using Cons.prems(1) [of status s st] that by simp
    show "Q x t'" if "Q x t" and "table_grows t t'" for x t t'
      using Cons.prems(2) that by blast
  qed
  have "Q schema (snd (convert_responses inh rs (acc', st1)))" for acc'
    using Cons.prems(2) [of schema st1] 1 convert_responses_grows [of st1 inh rs acc'] by blast
  then show ?case unfolding a using ih c by simp
qed

lemma route_operation_inv:
  assumes step: "\<And>s st. s \<in> set (context_schemas route) \<Longrightarrow> I st
                   \<Longrightarrow> I (snd (zodToOpenApiSchema inh s True False st))
                       \<and> Q s (snd (zodToOpenApiSchema inh s True False st))"
    and mono: "\<And>x t t'. Q x t \<Longrightarrow> table_grows t t' \<Longrightarrow> Q x t'"
    and "I schemas"
  shows "I (snd (route_operation inh route schemas))
         \<and> (\<forall>s \<in> set (context_schemas route). Q s (snd (route_operation inh route schemas)))"
proof -
  let ?body = "(case r_request route of Some r \<Rightarrow> rs_body r | None \<Rightarrow> None)"
  let ?s1 = "(case ?body of Some b \<Rightarrow> snd (zodToOpenApiSchema inh b True False schemas) | None \<Rightarrow> schemas)"
  let ?s2 = "snd (convert_responses inh (r_responses route) ([], ?s1))"
  have eq: "snd (route_operation inh route schemas) = ?s2"
    by (simp add: route_operation_def Let_def case_prod_beta split: option.splits)
  have cs: "set (context_schemas route) = (case ?body of Some b \<Rightarrow> {b} | None \<Rightarrow> {}) \<union> snd ` set (r_responses route)"
    by (auto simp: context_schemas_def split: option.splits)
  have 1: "I ?s1 \<and> (\<forall>b. ?body = Some b \<longrightarrow> Q b ?s1)"
  proof (cases ?body)
    case None
    then show ?thesis using assms(3) by simp
  next
    case (Some b)
    then have "b \<in> set (context_schemas route)" using cs by simp
    then show ?thesis using step [of b schemas] assms(3) Some by simp
  qed
  have 2: "I ?s2 \<and> (\<forall>(status, s) \<in> set (r_responses route). Q s ?s2)"
  proof (rule convert_responses_inv)
    show "I ?s1" using 1 by simp
    show "I (snd (zodToOpenApiSchema inh s True False st)) \<and> Q s (snd (zodToOpenApiSchema inh s True False st))"
      if "(status, s) \<in> set (r_responses route)" and "I st" for status s st
    proof -
      have "s \<in> set (context_schemas route)" using that(1) cs by force
      then show ?thesis using step that(2) by blast
    qed
    show "Q x t'" if "Q x t" and "table_grows t t'" for x t t'
      using mono that by blast
  qed
  have 3: "\<forall>b. ?body = Some b \<longrightarrow> Q b ?s2"
    using 1 mono convert_responses_grows [of ?s1 inh "r_responses route" "[]"] by blast
  show ?thesis
  proof (intro conjI ballI)
    show "I (snd (route_operation inh route schemas))" using 2 eq by simp
  next
    fix s
    assume "s \<in> set (context_schemas route)"
    then have "?body = Some s \<or> (\<exists>status. (status, s) \<in> set (r_responses route))"
      unfolding cs by (cases ?body) auto
    then show "Q s (snd (route_operation inh route schemas))"
    proof
      assume "?body = Some s"
      then have "Q s ?s2" using 3 by blast
      then show ?thesis using eq by simp
    next
      assume "\<exists>status. (status, s) \<in> set (r_responses route)"
      then obtain status where "(status, s) \<in> set (r_responses route)" by blast
      then have "Q s ?s2" using 2 by blast
      then show ?thesis using eq by simp
    qed
  qed
qed

lemma loop_inv:
  assumes step: "\<And>route inh s st. route \<in> set defs \<Longrightarrow> set inh \<subseteq> F \<Longrightarrow> s \<in> set (context_schemas route)
                   \<Longrightarrow> I st
                   \<Longrightarrow> I (snd (zodToOpenApiSchema inh s True False st))
                       \<and> Q s (snd (zodToOpenApiSchema inh s True False st))"
    and mono: "\<And>x t t'. Q x t \<Longrightarrow> table_grows t t' \<Longrightarrow> Q x t'"
    and "I (fst (snd st))"
    and "set (snd (snd (fold (route_step options) defs st))) \<subseteq> F"
  shows "I (fst (snd (fold (route_step options) defs st)))
         \<and> (\<forall>route \<in> set defs. \<forall>s \<in> set (context_schemas route).
               Q s (fst (snd (fold (route_step options) defs st))))"
  using assms
proof (induction defs arbitrary: st)
  case Nil
  then show ?case by simp
next
  case (Cons r defs)
  obtain paths schemas inh where st: "st = (paths, schemas, inh)" by (cases st) auto
  let ?st1 = "route_step options r (paths, schemas, inh)"
  let ?fin = "fold (route_step options) defs ?st1"
  have fin: "set (snd (snd ?fin)) \<subseteq> F" using Cons.prems(4) st by simp
  have "set (snd (snd ?st1)) \<subseteq> set (snd (snd ?fin))"
    using loop_facts [of ?st1 options defs] by blast
  then have inhF: "set inh \<subseteq> F"
    using fin route_step_inherited [of inh options r paths schemas] by blast
  have 1: "I (snd (route_operation inh r schemas))
           \<and> (\<forall>s \<in> set (context_schemas r). Q s (snd (route_operation inh r schemas)))"
  proof (rule route_operation_inv)
    show "I schemas" using Cons.prems(3) st by simp
    show "I (snd (zodToOpenApiSchema inh s True False st)) \<and> Q s (snd (zodToOpenApiSchema inh s True False st))"
      if "s \<in> set (context_schemas r)" and "I st" for s st
      using Cons.prems(1) [of r inh s st] inhF that by simp
    show "Q x t'" if "Q x t" and "table_grows t t'" for x t t'
      using Cons.prems(2) that by blast
  qed
  have t1: "fst (snd ?st1) = snd (route_operation inh r schemas)" by (simp add: route_step_eq)
  have ih: "I (fst (snd ?fin))
         \<and> (\<forall>route \<in> set defs. \<forall>s \<in> set (context_schemas route). Q s (fst (snd ?fin)))"
  proof (rule Cons.IH)
    show "I (fst (snd ?st1))" using 1 t1 by simp
    show "set (snd (snd ?fin)) \<subseteq> F" by (rule fin)
    show "I (snd (zodToOpenApiSchema inh s True False st)) \<and> Q s (snd (zodToOpenApiSchema inh s True False st))"
      if "route \<in> set defs" and "set inh \<subseteq> F" and "s \<in> set (context_schemas route)" and "I st"
      for route inh s st
      using Cons.prems(1) [of route inh s st] that by simp
    show "Q x t'" if "Q x t" and "table_grows t t'" for x t t'
      using Cons.prems(2) that by blast
  qed
  have g: "table_grows (fst (snd ?st1)) (fst (snd ?fin))"
    using loop_facts [of ?st1 options defs] by blast
  have "Q s (fst (snd ?fin))" if "s \<in> set (context_schemas r)" for s
  proof -
    have "Q s (fst (snd ?st1))" using 1 t1 that by simp
    then show ?thesis using g by (rule Cons.prems(2))
  qed
  then show ?case using ih st by simp
qed

text \<open>The component table of the generated document.\<close>

lemma all_sites_self: "a \<in> set (all_sites a)"
  by (subst all_sites.simps) simp

lemma all_sites_nested: "b \<in> set (all_sites a) \<Longrightarrow> set (nested_calls b) \<subseteq> set (all_sites a)"
proof (induction a rule: all_sites.induct)
  case (1 schema)
  have "b = schema \<or> (\<exists>c \<in> set (nested_calls schema). b \<in> set (all_sites c))"
    using "1.prems" by (subst (asm) all_sites.simps) auto
  then show ?case
  proof
    assume "b = schema"
    then show ?thesis using all_sites_self by (subst all_sites.simps) auto
  next
    assume "\<exists>c \<in> set (nested_calls schema). b \<in> set (all_sites c)"
    then obtain c where c: "c \<in> set (nested_calls schema)" and b: "b \<in> set (all_sites c)" by blast
    have "set (nested_calls b) \<subseteq> set (all_sites c)" using "1.IH" [OF c b] .
    then show ?thesis using c by (subst all_sites.simps) auto
  qed
qed

lemma document_sites_nested:
  "a \<in> set (document_sites defs) \<Longrightarrow> set (nested_calls a) \<subseteq> set (document_sites defs)"
proof -
  assume "a \<in> set (document_sites defs)"
  then obtain route s where r: "route \<in> set defs" and s: "s \<in> set (context_schemas route)"
    and a: "a \<in> set (all_sites s)"
    by (auto simp: document_sites_def)
  have "set (nested_calls a) \<subseteq> set (all_sites s)" using all_sites_nested [OF a] .
  moreover have "set (all_sites s) \<subseteq> set (document_sites defs)"
    using r s by (auto simp: document_sites_def)
  ultimately show ?thesis by blast
qed

lemma document_sites_context:
  "route \<in> set defs \<Longrightarrow> s \<in> set (context_schemas route) \<Longrightarrow> set (all_sites s) \<subseteq> set (document_sites defs)"
  by (auto simp: document_sites_def)

lemma document_use_sites:
  assumes "route \<in> set defs" and "s \<in> set (context_schemas route)" and "s' \<in> set (use_sites s)"
    and "effective_name s' \<noteq> []" and "effective_name s' \<notin> set (inherited_names defs options)"
  shows "\<exists>table. d_components (build_document defs options) = Some table
           \<and> effective_name s' \<in> own_keys table"
proof -
  let ?F = "inherited_names defs options"
  let ?final = "fold (route_step options) defs ([], [], object_prototype_keys)"
  have "True \<and> (\<forall>route \<in> set defs. \<forall>s \<in> set (context_schemas route).
                  \<forall>y \<in> set (use_sites s). registered ?F (fst (snd ?final)) y)"
  proof (rule loop_inv [where I = "\<lambda>st. True" and F = "set ?F"
           and Q = "\<lambda>s st. \<forall>y \<in> set (use_sites s). registered ?F st y"])
    show "True \<and> (\<forall>y \<in> set (use_sites s). registered ?F (snd (zodToOpenApiSchema inh s True False st)) y)"
      if "set inh \<subseteq> set ?F" for inh s st
    proof -
      have "\<forall>y \<in> set (use_sites s). registered inh (snd (zodToOpenApiSchema inh s True False st)) y"
        using use_sites_step [of True False s inh st] by simp
      then show ?thesis using that by (auto simp: registered_def)
    qed
    show "\<forall>y \<in> set (use_sites x). registered ?F t' y"
      if "\<forall>y \<in> set (use_sites x). registered ?F t y" and "table_grows t t'" for x t t'
      using that registered_mono by blast
    show "set (snd (snd ?final)) \<subseteq> set ?F" by (simp add: inherited_names_def)
  qed simp
  then have "registered ?F (fst (snd ?final)) s'" using assms(1-3) by blast
  moreover have "effective_name s' \<noteq> ''__proto__''" using assms(5) proto_inherited by metis
  ultimately have k: "effective_name s' \<in> own_keys (fst (snd ?final))"
    using assms(4,5) by (simp add: registered_def)
  then have "fst (snd ?final) \<noteq> []" by (auto simp: own_keys_def)
  then show ?thesis using k by (simp add: build_document_components)
qed

lemma document_all_sites:
  assumes same: "\<forall>a \<in> set (document_sites defs). \<forall>b \<in> set (document_sites defs).
                   effective_name a = effective_name b \<and> effective_name a \<noteq> []
                   \<longrightarrow> nested_calls a = nested_calls b"
    and ninh: "\<forall>a \<in> set (document_sites defs). effective_name a \<notin> set (inherited_names defs options)"
    and a: "a \<in> set (document_sites defs)" and n: "effective_name a \<noteq> []"
  shows "\<exists>table. d_components (build_document defs options) = Some table
           \<and> effective_name a \<in> own_keys table"
proof -
  let ?F = "inherited_names defs options"
  let ?S = "set (document_sites defs)"
  let ?final = "fold (route_step options) defs ([], [], object_prototype_keys)"
  have inv: "closed_table ?S (fst (snd ?final))
        \<and> (\<forall>route \<in> set defs. \<forall>s \<in> set (context_schemas route). covered (fst (snd ?final)) s)"
  proof (rule loop_inv [where I = "closed_table ?S" and F = "set ?F" and Q = "\<lambda>s st. covered st s"])
    show "closed_table ?S (snd (zodToOpenApiSchema inh s True False st))
          \<and> covered (snd (zodToOpenApiSchema inh s True False st)) s"
      if r: "route \<in> set defs" and i: "set inh \<subseteq> set ?F" and s: "s \<in> set (context_schemas route)"
        and c: "closed_table ?S st" for route inh s st
    proof -
      have "effective_name a \<notin> set inh \<and> effective_name a \<noteq> ''__proto__''" if "a \<in> ?S" for a
      proof -
        have "effective_name a \<notin> set ?F" using ninh that by blast
        moreover have "''__proto__'' \<in> set ?F" by (rule proto_inherited)
        ultimately show ?thesis using i by auto
      qed
      then have ok: "\<forall>a \<in> ?S. effective_name a \<notin> set inh \<and> effective_name a \<noteq> ''__proto__''"
        by blast
      have mem: "s \<in> ?S" using document_sites_context [OF r s] all_sites_self by blast
      have "True \<longrightarrow> (\<forall>a \<in> ?S. effective_name a \<notin> set inh \<and> effective_name a \<noteq> ''__proto__'')
            \<longrightarrow> s \<in> ?S \<longrightarrow> closed_table ?S st
            \<longrightarrow> closed_table ?S (snd (zodToOpenApiSchema inh s True False st))
                \<and> (\<not> False \<longrightarrow> covered (snd (zodToOpenApiSchema inh s True False st)) s)
                \<and> (False \<longrightarrow>
                     (\<forall>c \<in> set (nested_calls s).
                        covered (snd (zodToOpenApiSchema inh s True False st)) c))"
      proof (rule deep_step)
        show "set (nested_calls a) \<subseteq> ?S" if "a \<in> ?S" for a
          using that by (rule document_sites_nested)
        show "nested_calls a = nested_calls b"
          if "a \<in> ?S" and "b \<in> ?S" and "effective_name a = effective_name b" and "effective_name a \<noteq> []"
          for a b
          using same that by blast
      qed
      then show ?thesis using ok mem c by blast
    qed
    show "covered t' x" if "covered t x" and "table_grows t t'" for x t t'
      using that by (rule covered_mono)
    show "closed_table ?S (fst (snd ([], [], object_prototype_keys)))"
      by (simp add: closed_table_def own_keys_def)
    show "set (snd (snd ?final)) \<subseteq> set ?F" by (simp add: inherited_names_def)
  qed
  obtain route s where "route \<in> set defs" and "s \<in> set (context_schemas route)" and "a \<in> set (all_sites s)"
    using a by (auto simp: document_sites_def)
  then have k: "effective_name a \<in> own_keys (fst (snd ?final))"
    using inv n by (auto simp: covered_def)
  then have "fst (snd ?final) \<noteq> []" by (auto simp: own_keys_def)
  then show ?thesis using k by (simp add: build_document_components)
qed

text \<open>Parameter schemas: converted without a context, and of no effect on the table.\<close>

lemma no_context_inline:
  "\<exists>kvs. fst (zodToOpenApiSchema inh schema False asComponent schemas) = JObj kvs
         \<and> ''$ref'' \<notin> own_keys kvs"
  by (subst zodToOpenApiSchema.simps)
     (auto simp: decorate_def Let_def case_prod_beta own_keys_def js_set_def
        split: zod_def.splits)

lemma own_keys_ensure:
  "own_keys (ensure_path_item inh path paths) =
     (if path \<in> own_keys paths \<or> path \<in> set inh \<or> path = ''__proto__'' then own_keys paths
      else insert path (own_keys paths))"
  by (auto simp: ensure_path_item_def js_has_def own_keys_js_set own_keys_js_set_proto)

lemma own_keys_assign:
  "own_keys (fst (assign_operation path m operation (paths, inh))) = own_keys paths"
proof (cases "map_of paths path")
  case None
  then show ?thesis by (simp add: assign_operation_def)
next
  case (Some item)
  then have "path \<in> own_keys paths" by (simp add: own_keys_map_of)
  then show ?thesis
    using Some
    by (cases "path = ''__proto__''")
       (auto simp: assign_operation_def own_keys_js_set own_keys_js_set_proto)
qed

lemma inherited_assign:
  "snd (assign_operation path m operation (paths, inh)) =
     (if path \<notin> own_keys paths \<and> path = ''__proto__'' then List.insert m inh else inh)"
  by (auto simp: assign_operation_def own_keys_map_of split: option.splits)

lemma route_operation_without_parameters:
  "snd (route_operation inh (without_parameters route) schemas) = snd (route_operation inh route schemas)"
  by (cases "r_request route")
     (simp_all add: route_operation_def without_parameters_def Let_def case_prod_beta)

lemma path_key_without_parameters: "path_key options (without_parameters route) = path_key options route"
  by (simp add: path_key_def express_path_def without_parameters_def split: option.splits)

lemma route_step_without_parameters:
  assumes "own_keys paths' = own_keys paths"
  shows "own_keys (fst (route_step options (without_parameters route) (paths', schemas, inh)))
           = own_keys (fst (route_step options route (paths, schemas, inh)))
         \<and> snd (route_step options (without_parameters route) (paths', schemas, inh))
           = snd (route_step options route (paths, schemas, inh))"
proof -
  have m: "r_method (without_parameters route) = r_method route"
    by (simp add: without_parameters_def)
  have e: "own_keys (ensure_path_item inh (path_key options route) paths')
             = own_keys (ensure_path_item inh (path_key options route) paths)"
    using assms by (simp add: own_keys_ensure)
  show ?thesis
    unfolding route_step_eq
    by (simp add: own_keys_assign inherited_assign e m
          route_operation_without_parameters path_key_without_parameters)
qed

lemma loop_without_parameters:
  assumes "own_keys (fst st') = own_keys (fst st)" and "snd st' = snd st"
  shows "snd (fold (route_step options) (map without_parameters defs) st')
           = snd (fold (route_step options) defs st)"
  using assms
proof (induction defs arbitrary: st st')
  case Nil
  then show ?case by simp
next
  case (Cons r defs)
  obtain paths schemas inh where st: "st = (paths, schemas, inh)" by (cases st) auto
  obtain paths' where st': "st' = (paths', schemas, inh)"
    using Cons.prems(2) st by (cases st') auto
  have k: "own_keys paths' = own_keys paths" using Cons.prems(1) st st' by simp
  note step = route_step_without_parameters [OF k, of options r schemas inh]
  have "snd (fold (route_step options) (map without_parameters defs)
               (route_step options (without_parameters r) (paths', schemas, inh)))
          = snd (fold (route_step options) defs (route_step options r (paths, schemas, inh)))"
    by (rule Cons.IH) (simp_all add: step)
  then show ?case by (simp add: st st')
qed

lemma components_without_parameters:
  "d_components (build_document (map without_parameters defs) options)
     = d_components (build_document defs options)"
  using loop_without_parameters [of "([], [], object_prototype_keys)" "([], [], object_prototype_keys)" options defs]
  by (simp add: build_document_components)

text \<open>What a route contributes: its fragments and the table after it.\<close>

lemma map_state_table: "snd (map_state f xs st) = fold (\<lambda>x st. snd (f x st)) xs st"
  by (induction xs arbitrary: st) (simp_all add: case_prod_beta)

lemma convert_responses_eq:
  "convert_responses inh rs (acc, st) =
     (fold (\<lambda>(status, fragment).
              js_set (string_of_int status)
                (JObj [(''description'', JStr ''Response''), (''content'', json_content fragment)]))
           (zip (map fst rs)
                (fst (map_state (\<lambda>s st. zodToOpenApiSchema inh s True False st) (map snd rs) st)))
           acc,
      snd (map_state (\<lambda>s st. zodToOpenApiSchema inh s True False st) (map snd rs) st))"
proof (induction rs arbitrary: acc st)
  case Nil
  then show ?case by simp
next
  case (Cons a rs)
  obtain status schema where a: "a = (status, schema)" by (cases a)
  show ?case unfolding a by (simp add: Cons case_prod_beta)
qed

lemma route_operation_parts:
  "(\<exists>ops. fst (route_operation inh route schemas) = JObj ops
      \<and> map_of ops ''requestBody'' =
          Some (case (case r_request route of Some r \<Rightarrow> rs_body r | None \<Rightarrow> None) of
                  Some b \<Rightarrow>
                    JObj [(''required'', JBool True),
                          (''content'', json_content (fst (zodToOpenApiSchema inh b True False schemas)))]
                | None \<Rightarrow> JUndefined)
      \<and> map_of ops ''parameters'' = Some (buildParameters (r_request route))
      \<and> map_of ops ''responses'' =
          Some (JObj (fold (\<lambda>(status, fragment).
                              js_set (string_of_int status)
                                (JObj [(''description'', JStr ''Response''),
                                       (''content'', json_content fragment)]))
                        (zip (map fst (r_responses route))
                           (fst (map_state (\<lambda>s st. zodToOpenApiSchema inh s True False st)
                                   (map snd (r_responses route))
                                   (case (case r_request route of Some r \<Rightarrow> rs_body r | None \<Rightarrow> None) of
                                      Some b \<Rightarrow> snd (zodToOpenApiSchema inh b True False schemas)
                                    | None \<Rightarrow> schemas))))
                        [])))
   \<and> snd (route_operation inh route schemas) =
       fold (\<lambda>s st. snd (zodToOpenApiSchema inh s True False st)) (context_schemas route) schemas"
  by (simp add: route_operation_def convert_responses_eq map_state_table context_schemas_def
        Let_def case_prod_beta fold_map comp_def split: option.splits)

lemma parameter_entries_member:
  assumes "e \<in> set (parameter_entries location required p)"
  shows "\<exists>shape name s. shape_of p = Some shape \<and> (name, s) \<in> set shape
           \<and> e = JObj [(''name'', JStr name), (''in'', JStr location), (''required'', JBool required),
                        (''schema'', fst (zodToOpenApiSchema [] s False False []))]"
proof (cases "shape_of p")
  case None
  then show ?thesis using assms by (simp add: parameter_entries_def)
next
  case (Some shape)
  then obtain name s where "(name, s) \<in> set shape"
    and "e = JObj [(''name'', JStr name), (''in'', JStr location), (''required'', JBool required),
                   (''schema'', fst (zodToOpenApiSchema [] s False False []))]"
    using assms by (auto simp: parameter_entries_def)
  then show ?thesis using Some by blast
qed

lemma buildParameters_entries:
  assumes "buildParameters request = JArr ps" and "e \<in> set ps"
  shows "\<exists>r p shape name s location required.
           request = Some r \<and> p \<in> {rs_params r, rs_query r, rs_headers r}
           \<and> shape_of p = Some shape \<and> (name, s) \<in> set shape
           \<and> e = JObj [(''name'', JStr name), (''in'', JStr location), (''required'', JBool required),
                        (''schema'', fst (zodToOpenApiSchema [] s False False []))]"
proof (cases request)
  case None
  then show ?thesis using assms by (simp add: buildParameters_def)
next
  case (Some r)
  have "ps = parameter_entries ''path'' True (rs_params r)
           @ parameter_entries ''query'' False (rs_query r)
           @ parameter_entries ''header'' False (rs_headers r)"
    using assms(1) Some by (simp add: buildParameters_def Let_def split: if_splits)
  then consider "e \<in> set (parameter_entries ''path'' True (rs_params r))"
    | "e \<in> set (parameter_entries ''query'' False (rs_query r))"
    | "e \<in> set (parameter_entries ''header'' False (rs_headers r))"
    using assms(2) by auto
  then show ?thesis
  proof cases
    case 1
    then show ?thesis using parameter_entries_member [OF 1] Some by blast
  next
    case 2
    then show ?thesis using parameter_entries_member [OF 2] Some by blast
  next
    case 3
    then show ?thesis using parameter_entries_member [OF 3] Some by blast
  qed
qed

text \<open>
  C4, as the claim states it, fails. A schema named \<open>UserId\<close> that a route uses for a path
  parameter is inlined there, and the document has no component table at all. When a schema
  named \<open>A\<close> has a field whose schema is named \<open>A\<close> too, the field's schema is entered
  first (it is what the table holds when the component call returns) and the outer schema
  then replaces it. A schema named \<open>constructor\<close> is referenced while nothing is
  entered under that name. A name set on the optional wrapper of an object field is not
  seen: the field is inlined although the conversion has the context. And when a response
  schema named \<open>A\<close> follows another one of that name, it is not converted, so that the
  schema named \<open>UserId\<close> inside it is never entered.
\<close>

theorem named_schema_counterexample:
  "z_openApi_name user_id = Some ''UserId''
   \<and> buildParameters (r_request user_route)
       = JArr [JObj [(''name'', JStr ''id''), (''in'', JStr ''path''), (''required'', JBool True),
                     (''schema'', JObj [(''type'', JStr ''string'')])]]
   \<and> d_components (build_document [user_route] example_doc_options) = None
   \<and> snd (zodToOpenApiSchema object_prototype_keys outer_a True True [])
       = [(''A'', JObj [(''type'', JStr ''string'')])]
   \<and> snd (zodToOpenApiSchema object_prototype_keys outer_a True False [])
       = [(''A'', JObj [(''type'', JStr ''object''),
                        (''properties'', JObj [(''x'', JObj [(''$ref'', JStr ''#/components/schemas/A'')])]),
                        (''required'', JArr [JStr ''x''])])]
   \<and> zodToOpenApiSchema object_prototype_keys constructor_schema True False []
       = (JObj [(''$ref'', JStr ''#/components/schemas/constructor'')], [])
   \<and> z_openApi_name tagged_optional = Some ''Tag''
   \<and> zodToOpenApiSchema object_prototype_keys tag_holder True False []
       = (JObj [(''type'', JStr ''object''),
                (''properties'', JObj [(''t'', JObj [(''type'', JStr ''string'')])])], [])
   \<and> d_components (build_document [same_name_route] example_doc_options)
       = Some [(''A'', JObj [(''type'', JStr ''string'')])]"
  by (simp add: user_id_def user_route_def example_doc_options_def buildParameters_def
        parameter_entries_def zodToOpenApiSchema.simps unwrapZodType_def name_of_def decorate_def
        build_document_def route_step_def route_operation_def assign_operation_def
        ensure_path_item_def path_key_def express_path_def js_has_def own_keys_def js_set_def
        object_prototype_keys_def inner_a_def outer_a_def constructor_schema_def
        tagged_optional_def tag_holder_def or_else_def a_list_def same_name_route_def Let_def)

text \<open>
  C4, amended. A conversion never changes or removes an entry that the component table had
  when it started (the first use of a name wins) and never leaves a name twice in the table.

  A conversion with context of a schema whose unwrapping finds a non-empty name returns the
  \<open>$ref\<close> to that name (with the description and the nullable flag); it leaves the table
  as it is when the name is there already or is one that plain objects inherit, and
  otherwise enters under that name the conversion of this schema as a component; the name
  is then in the table unless plain objects inherit it. Every other conversion passes its
  context on to the element of an array, to the options of a union and to the unwrapped
  schemas of the fields of an object: their fragments are the items, the \<open>oneOf\<close>
  entries and the properties, and the table is handed from one to the next. So a conversion with context enters the name of every use
  site that it reaches through schemas without a name, and the conversion as a component
  enters those of its nested calls.

  In the generated document the component table has no name twice. It has the name of every
  use site reached from a request body or a response schema through schemas without a name,
  if plain objects do not inherit that name. It has the name of every site at any depth,
  provided that sites of the same name have the same nested calls and that plain objects
  inherit none of the names.

  Without a context a conversion leaves the table as it is and returns an object without
  \<open>$ref\<close>; this is how \<open>buildParameters\<close> converts each parameter (every entry of
  its result carries such a conversion of a field of \<open>params\<close>, \<open>query\<close> or
  \<open>headers\<close>), and the component table of the document is the same without the
  parameter schemas of the routes. The request body and the response schemas of a route are
  converted with the context, in this order, each from the table that the one before left:
  their fragments are the schemas of the request body and of the responses of the operation.
\<close>

theorem named_schema_component:
  "(\<forall>k v. map_of schemas k = Some v
       \<longrightarrow> map_of (snd (zodToOpenApiSchema inh schema context asComponent schemas)) k = Some v)
   \<and> (distinct (map fst schemas)
       \<longrightarrow> distinct (map fst (snd (zodToOpenApiSchema inh schema context asComponent schemas))))
   \<and> (effective_name schema \<noteq> [] \<longrightarrow>
        fst (zodToOpenApiSchema inh schema True False schemas) =
          decorate (u_description (unwrapZodType schema)) (u_isNullable (unwrapZodType schema))
            (JObj [(''$ref'', JStr (''#/components/schemas/'' @ effective_name schema))])
        \<and> (js_has inh schemas (effective_name schema)
             \<longrightarrow> snd (zodToOpenApiSchema inh schema True False schemas) = schemas)
        \<and> (effective_name schema \<notin> set inh \<and> effective_name schema \<noteq> ''__proto__''
             \<longrightarrow> effective_name schema \<in> own_keys (snd (zodToOpenApiSchema inh schema True False schemas)))
        \<and> (\<not> js_has inh schemas (effective_name schema)
             \<longrightarrow> snd (zodToOpenApiSchema inh schema True False schemas) =
                   js_set (effective_name schema)
                     (fst (zodToOpenApiSchema inh schema True True schemas))
                     (snd (zodToOpenApiSchema inh schema True True schemas))))
   \<and> (\<not> (context \<and> effective_name schema \<noteq> [] \<and> \<not> asComponent) \<longrightarrow>
        snd (zodToOpenApiSchema inh schema context asComponent schemas) =
          (case z_def (u_schema (unwrapZodType schema)) of
             ZodArray t \<Rightarrow> snd (zodToOpenApiSchema inh t context False schemas)
           | ZodObject shape \<Rightarrow>
               snd (snd (convert_shape (\<lambda>s st. zodToOpenApiSchema inh s context False st) shape
                           ([], [], schemas)))
           | ZodUnion opts \<Rightarrow>
               snd (map_state (\<lambda>s st. zodToOpenApiSchema inh s context False st) opts schemas)
           | _ \<Rightarrow> schemas)
        \<and> (\<forall>t. z_def (u_schema (unwrapZodType schema)) = ZodArray t \<longrightarrow>
              fst (zodToOpenApiSchema inh schema context asComponent schemas) =
                decorate (u_description (unwrapZodType schema)) (u_isNullable (unwrapZodType schema))
                  (JObj [(''type'', JStr ''array''),
                         (''items'', fst (zodToOpenApiSchema inh t context False schemas))]))
        \<and> (\<forall>opts. z_def (u_schema (unwrapZodType schema)) = ZodUnion opts \<longrightarrow>
              fst (zodToOpenApiSchema inh schema context asComponent schemas) =
                decorate (u_description (unwrapZodType schema)) (u_isNullable (unwrapZodType schema))
                  (JObj [(''oneOf'',
                          JArr (fst (map_state (\<lambda>s st. zodToOpenApiSchema inh s context False st)
                                       opts schemas)))]))
        \<and> (\<forall>shape. z_def (u_schema (unwrapZodType schema)) = ZodObject shape \<longrightarrow>
              fst (zodToOpenApiSchema inh schema context asComponent schemas) =
                (let (properties, required, schemas1) =
                       convert_shape (\<lambda>s st. zodToOpenApiSchema inh s context False st) shape
                         ([], [], schemas)
                 in decorate (u_description (unwrapZodType schema)) (u_isNullable (unwrapZodType schema))
                      (JObj ([(''type'', JStr ''object''), (''properties'', JObj properties)]
                             @ (if required \<noteq> [] then [(''required'', JArr (map JStr required))]
                                else []))))))
   \<and> (context \<longrightarrow>
        (\<not> asComponent \<longrightarrow>
           (\<forall>s' \<in> set (use_sites schema).
              registered inh (snd (zodToOpenApiSchema inh schema context asComponent schemas)) s'))
        \<and> (asComponent \<or> effective_name schema = [] \<or> \<not> js_has inh schemas (effective_name schema) \<longrightarrow>
           (\<forall>c \<in> set (nested_calls schema). \<forall>s' \<in> set (use_sites c).
              registered inh (snd (zodToOpenApiSchema inh schema context asComponent schemas)) s')))
   \<and> (\<forall>table. d_components (build_document defs options) = Some table \<longrightarrow> distinct (map fst table))
   \<and> (\<forall>route \<in> set defs. \<forall>s \<in> set (context_schemas route). \<forall>s' \<in> set (use_sites s).
         effective_name s' \<noteq> [] \<and> effective_name s' \<notin> set (inherited_names defs options)
         \<longrightarrow> (\<exists>table. d_components (build_document defs options) = Some table
                \<and> effective_name s' \<in> own_keys table))
   \<and> ((\<forall>a \<in> set (document_sites defs). \<forall>b \<in> set (document_sites defs).
          effective_name a = effective_name b \<and> effective_name a \<noteq> []
          \<longrightarrow> nested_calls a = nested_calls b)
       \<and> (\<forall>a \<in> set (document_sites defs). effective_name a \<notin> set (inherited_names defs options))
       \<longrightarrow> (\<forall>a \<in> set (document_sites defs). effective_name a \<noteq> []
              \<longrightarrow> (\<exists>table. d_components (build_document defs options) = Some table
                     \<and> effective_name a \<in> own_keys table)))
   \<and> (\<not> context \<longrightarrow>
        snd (zodToOpenApiSchema inh schema context asComponent schemas) = schemas
        \<and> (\<exists>kvs. fst (zodToOpenApiSchema inh schema context asComponent schemas) = JObj kvs
                  \<and> ''$ref'' \<notin> own_keys kvs))
   \<and> (\<forall>shape. shape_of p = Some shape \<longrightarrow>
         parameter_entries location required p =
           map (\<lambda>(name, s).
                  JObj [(''name'', JStr name), (''in'', JStr location), (''required'', JBool required),
                        (''schema'', fst (zodToOpenApiSchema [] s False False []))])
               shape)
   \<and> (\<forall>ps. buildParameters request = JArr ps \<longrightarrow>
         (\<forall>e \<in> set ps. \<exists>r q shape name s loc rq.
             request = Some r \<and> q \<in> {rs_params r, rs_query r, rs_headers r}
             \<and> shape_of q = Some shape \<and> (name, s) \<in> set shape
             \<and> e = JObj [(''name'', JStr name), (''in'', JStr loc), (''required'', JBool rq),
                          (''schema'', fst (zodToOpenApiSchema [] s False False []))]))
   \<and> d_components (build_document (map without_parameters defs) options)
       = d_components (build_document defs options)
   \<and> (\<exists>ops. fst (route_operation inh route schemas) = JObj ops
         \<and> map_of ops ''requestBody'' =
             Some (case (case r_request route of Some r \<Rightarrow> rs_body r | None \<Rightarrow> None) of
                     Some b \<Rightarrow>
                       JObj [(''required'', JBool True),
                             (''content'', json_content (fst (zodToOpenApiSchema inh b True False schemas)))]
                   | None \<Rightarrow> JUndefined)
         \<and> map_of ops ''parameters'' = Some (buildParameters (r_request route))
         \<and> map_of ops ''responses'' =
             Some (JObj (fold (\<lambda>(status, fragment).
                                 js_set (string_of_int status)
                                   (JObj [(''description'', JStr ''Response''),
                                          (''content'', json_content fragment)]))
                           (zip (map fst (r_responses route))
                              (fst (map_state (\<lambda>s st. zodToOpenApiSchema inh s True False st)
                                      (map snd (r_responses route))
                                      (case (case r_request route of Some r \<Rightarrow> rs_body r | None \<Rightarrow> None) of
                                         Some b \<Rightarrow> snd (zodToOpenApiSchema inh b True False schemas)
                                       | None \<Rightarrow> schemas))))
                           [])))
   \<and> snd (route_operation inh route schemas) =
       fold (\<lambda>s st. snd (zodToOpenApiSchema inh s True False st)) (context_schemas route) schemas"
proof -
  let ?name = "effective_name schema"
  let ?final = "fold (route_step options) defs ([], [], object_prototype_keys)"
  have en: "name_of (u_openApiName (unwrapZodType schema)) = ?name"
    by (simp add: effective_name_def)
  have g: "table_grows schemas (snd (zodToOpenApiSchema inh schema context asComponent schemas))"
    by (rule conversion_grows)
  have 1: "\<forall>k v. map_of schemas k = Some v
       \<longrightarrow> map_of (snd (zodToOpenApiSchema inh schema context asComponent schemas)) k = Some v"
    using g by (simp add: table_grows_def)
  have 2: "distinct (map fst schemas)
       \<longrightarrow> distinct (map fst (snd (zodToOpenApiSchema inh schema context asComponent schemas)))"
    using g by (simp add: table_grows_def)
  have 3: "?name \<noteq> [] \<longrightarrow>
        fst (zodToOpenApiSchema inh schema True False schemas) =
          decorate (u_description (unwrapZodType schema)) (u_isNullable (unwrapZodType schema))
            (JObj [(''$ref'', JStr (''#/components/schemas/'' @ ?name))])
        \<and> (js_has inh schemas ?name \<longrightarrow> snd (zodToOpenApiSchema inh schema True False schemas) = schemas)
        \<and> (?name \<notin> set inh \<and> ?name \<noteq> ''__proto__''
             \<longrightarrow> ?name \<in> own_keys (snd (zodToOpenApiSchema inh schema True False schemas)))
        \<and> (\<not> js_has inh schemas ?name
             \<longrightarrow> snd (zodToOpenApiSchema inh schema True False schemas) =
                   js_set ?name
                     (fst (zodToOpenApiSchema inh schema True True schemas))
                     (snd (zodToOpenApiSchema inh schema True True schemas)))"
  proof (intro impI conjI)
    assume n: "?name \<noteq> []"
    show "fst (zodToOpenApiSchema inh schema True False schemas) =
          decorate (u_description (unwrapZodType schema)) (u_isNullable (unwrapZodType schema))
            (JObj [(''$ref'', JStr (''#/components/schemas/'' @ ?name))])"
      by (rule named_use_site(1) [OF en n])
    show "snd (zodToOpenApiSchema inh schema True False schemas) = schemas" if "js_has inh schemas ?name"
      by (rule named_use_site(2) [OF en n that])
    show "?name \<in> own_keys (snd (zodToOpenApiSchema inh schema True False schemas))"
      if "?name \<notin> set inh \<and> ?name \<noteq> ''__proto__''"
      using named_registered [OF en n, of inh schemas] that by blast
    show "snd (zodToOpenApiSchema inh schema True False schemas) =
                   js_set ?name
                     (fst (zodToOpenApiSchema inh schema True True schemas))
                     (snd (zodToOpenApiSchema inh schema True True schemas))"
      if "\<not> js_has inh schemas ?name"
      by (rule named_use_site(3) [OF en n that])
  qed
  have 4: "\<not> (context \<and> ?name \<noteq> [] \<and> \<not> asComponent) \<longrightarrow>
        snd (zodToOpenApiSchema inh schema context asComponent schemas) =
          (case z_def (u_schema (unwrapZodType schema)) of
             ZodArray t \<Rightarrow> snd (zodToOpenApiSchema inh t context False schemas)
           | ZodObject shape \<Rightarrow>
               snd (snd (convert_shape (\<lambda>s st. zodToOpenApiSchema inh s context False st) shape
                           ([], [], schemas)))
           | ZodUnion opts \<Rightarrow>
               snd (map_state (\<lambda>s st. zodToOpenApiSchema inh s context False st) opts schemas)
           | _ \<Rightarrow> schemas)
        \<and> (\<forall>t. z_def (u_schema (unwrapZodType schema)) = ZodArray t \<longrightarrow>
              fst (zodToOpenApiSchema inh schema context asComponent schemas) =
                decorate (u_description (unwrapZodType schema)) (u_isNullable (unwrapZodType schema))
                  (JObj [(''type'', JStr ''array''),
                         (''items'', fst (zodToOpenApiSchema inh t context False schemas))]))
        \<and> (\<forall>opts. z_def (u_schema (unwrapZodType schema)) = ZodUnion opts \<longrightarrow>
              fst (zodToOpenApiSchema inh schema context asComponent schemas) =
                decorate (u_description (unwrapZodType schema)) (u_isNullable (unwrapZodType schema))
                  (JObj [(''oneOf'',
                          JArr (fst (map_state (\<lambda>s st. zodToOpenApiSchema inh s context False st)
                                       opts schemas)))]))
        \<and> (\<forall>shape. z_def (u_schema (unwrapZodType schema)) = ZodObject shape \<longrightarrow>
              fst (zodToOpenApiSchema inh schema context asComponent schemas) =
                (let (properties, required, schemas1) =
                       convert_shape (\<lambda>s st. zodToOpenApiSchema inh s context False st) shape
                         ([], [], schemas)
                 in decorate (u_description (unwrapZodType schema)) (u_isNullable (unwrapZodType schema))
                      (JObj ([(''type'', JStr ''object''), (''properties'', JObj properties)]
                             @ (if required \<noteq> [] then [(''required'', JArr (map JStr required))]
                                else [])))))"
    using conversion_table [where ctx = "context" and schema = schema and asComponent = asComponent
                               and inh = inh and schemas = schemas]
      conversion_fragment [where ctx = "context" and schema = schema and asComponent = asComponent
                             and inh = inh and schemas = schemas]
    by blast
  have 5: "context \<longrightarrow>
        (\<not> asComponent \<longrightarrow>
           (\<forall>s' \<in> set (use_sites schema).
              registered inh (snd (zodToOpenApiSchema inh schema context asComponent schemas)) s'))
        \<and> (asComponent \<or> ?name = [] \<or> \<not> js_has inh schemas ?name \<longrightarrow>
           (\<forall>c \<in> set (nested_calls schema). \<forall>s' \<in> set (use_sites c).
              registered inh (snd (zodToOpenApiSchema inh schema context asComponent schemas)) s'))"
    by (rule use_sites_step)
  have grow: "table_grows [] (fst (snd ?final))"
    using loop_facts [of "([], [], object_prototype_keys)" options defs] by simp
  have 6: "\<forall>table. d_components (build_document defs options) = Some table \<longrightarrow> distinct (map fst table)"
    using grow by (auto simp: build_document_components table_grows_def split: if_splits)
  have 7: "\<forall>route \<in> set defs. \<forall>s \<in> set (context_schemas route). \<forall>s' \<in> set (use_sites s).
         effective_name s' \<noteq> [] \<and> effective_name s' \<notin> set (inherited_names defs options)
         \<longrightarrow> (\<exists>table. d_components (build_document defs options) = Some table
                \<and> effective_name s' \<in> own_keys table)"
    using document_use_sites [of _ defs _ _ options] by blast
  have 8: "(\<forall>a \<in> set (document_sites defs). \<forall>b \<in> set (document_sites defs).
          effective_name a = effective_name b \<and> effective_name a \<noteq> []
          \<longrightarrow> nested_calls a = nested_calls b)
       \<and> (\<forall>a \<in> set (document_sites defs). effective_name a \<notin> set (inherited_names defs options))
       \<longrightarrow> (\<forall>a \<in> set (document_sites defs). effective_name a \<noteq> []
              \<longrightarrow> (\<exists>table. d_components (build_document defs options) = Some table
                     \<and> effective_name a \<in> own_keys table))"
    using document_all_sites [of defs options] by blast
  have 9: "\<not> context \<longrightarrow>
        snd (zodToOpenApiSchema inh schema context asComponent schemas) = schemas
        \<and> (\<exists>kvs. fst (zodToOpenApiSchema inh schema context asComponent schemas) = JObj kvs
                  \<and> ''$ref'' \<notin> own_keys kvs)"
    using no_context_state [of inh schema asComponent schemas]
      no_context_inline [of inh schema asComponent schemas] by auto
  have 10: "\<forall>shape. shape_of p = Some shape \<longrightarrow>
         parameter_entries location required p =
           map (\<lambda>(name, s).
                  JObj [(''name'', JStr name), (''in'', JStr location), (''required'', JBool required),
                        (''schema'', fst (zodToOpenApiSchema [] s False False []))])
               shape"
    by (simp add: parameter_entries_def)
  have 11: "\<forall>ps. buildParameters request = JArr ps \<longrightarrow>
         (\<forall>e \<in> set ps. \<exists>r q shape name s loc rq.
             request = Some r \<and> q \<in> {rs_params r, rs_query r, rs_headers r}
             \<and> shape_of q = Some shape \<and> (name, s) \<in> set shape
             \<and> e = JObj [(''name'', JStr name), (''in'', JStr loc), (''required'', JBool rq),
                          (''schema'', fst (zodToOpenApiSchema [] s False False []))])"
    using buildParameters_entries [of request] by blast
  have 12: "d_components (build_document (map without_parameters defs) options)
       = d_components (build_document defs options)"
    by (rule components_without_parameters)
  note 13 = route_operation_parts [of inh route schemas, THEN conjunct1]
  note 14 = route_operation_parts [of inh route schemas, THEN conjunct2]
  show ?thesis
    by (intro conjI) (fact 1 2 3 4 5 6 7 8 9 10 11 12 13 14)+
qed

theorem named_schema_witness:
  "fst (zodToOpenApiSchema object_prototype_keys user_id True False [])
      = JObj [(''$ref'', JStr ''#/components/schemas/UserId'')]
   \<and> ''UserId'' \<in> own_keys (snd (zodToOpenApiSchema object_prototype_keys
                                    (Zod (ZodArray user_id) None None) True False []))
   \<and> (\<exists>table. d_components (build_document [users_route] example_doc_options) = Some table
         \<and> ''User'' \<in> own_keys table \<and> ''UserId'' \<in> own_keys table \<and> distinct (map fst table))"
proof -
  let ?arr = "Zod (ZodArray user_schema) None None"
  note t = named_schema_component
             [of "[]" object_prototype_keys user_id True False "[users_route]" example_doc_options
                 None "[]" False None users_route]
  note t2 = named_schema_component
             [of "[]" object_prototype_keys "Zod (ZodArray user_id) None None" True False
                 "[users_route]" example_doc_options None "[]" False None users_route]
  note named = t [THEN conjunct2, THEN conjunct2, THEN conjunct1]
  note sites = t2 [THEN conjunct2, THEN conjunct2, THEN conjunct2, THEN conjunct2, THEN conjunct1]
  note once = t [THEN conjunct2, THEN conjunct2, THEN conjunct2, THEN conjunct2, THEN conjunct2,
                 THEN conjunct1]
  note reached = t [THEN conjunct2, THEN conjunct2, THEN conjunct2, THEN conjunct2, THEN conjunct2,
                    THEN conjunct2, THEN conjunct1]
  note deep = t [THEN conjunct2, THEN conjunct2, THEN conjunct2, THEN conjunct2, THEN conjunct2,
                 THEN conjunct2, THEN conjunct2, THEN conjunct1]
  have n: "effective_name user_id = ''UserId''" "effective_name user_schema = ''User''"
    "effective_name ?arr = []" "effective_name (Zod (ZodArray user_id) None None) = []"
    and d: "u_description (unwrapZodType user_id) = None"
    and nl: "u_isNullable (unwrapZodType user_id) = False"
    by (simp_all add: effective_name_def user_id_def user_schema_def unwrapZodType_def name_of_def)
  have a: "fst (zodToOpenApiSchema object_prototype_keys user_id True False [])
      = JObj [(''$ref'', JStr ''#/components/schemas/UserId'')]"
    using named n d nl by (simp add: decorate_def)
  have u2: "use_sites (Zod (ZodArray user_id) None None) = [Zod (ZodArray user_id) None None, user_id]"
    by (simp add: use_sites.simps nested_calls_def n unwrapZodType_def)
  have b: "''UserId'' \<in> own_keys (snd (zodToOpenApiSchema object_prototype_keys
                                    (Zod (ZodArray user_id) None None) True False []))"
  proof -
    have "\<forall>s' \<in> set (use_sites (Zod (ZodArray user_id) None None)).
            registered object_prototype_keys
              (snd (zodToOpenApiSchema object_prototype_keys (Zod (ZodArray user_id) None None) True False []))
              s'"
      using sites by simp
    then have "registered object_prototype_keys
              (snd (zodToOpenApiSchema object_prototype_keys (Zod (ZodArray user_id) None None) True False []))
              user_id"
      using u2 by simp
    then show ?thesis using n by (simp add: registered_def object_prototype_keys_def)
  qed
  have cs: "context_schemas users_route = [?arr]"
    by (simp add: context_schemas_def users_route_def)
  have u: "use_sites ?arr = [?arr, user_schema]"
    by (simp add: use_sites.simps nested_calls_def n unwrapZodType_def)
  have ds: "document_sites [users_route] = [?arr, user_schema, user_id]"
    by (simp add: document_sites_def cs all_sites.simps nested_calls_def
          unwrapZodType_def user_schema_def user_id_def)
  have i: "inherited_names [users_route] example_doc_options = object_prototype_keys"
    by (simp add: inherited_names_def route_step_def assign_operation_def ensure_path_item_def
          users_route_def example_doc_options_def path_key_def express_path_def js_has_def
          own_keys_def js_set_def object_prototype_keys_def case_prod_beta Let_def)
  have "\<forall>route \<in> set [users_route]. \<forall>s \<in> set (context_schemas route). \<forall>s' \<in> set (use_sites s).
         effective_name s' \<noteq> [] \<and> effective_name s' \<notin> set (inherited_names [users_route] example_doc_options)
         \<longrightarrow> (\<exists>table. d_components (build_document [users_route] example_doc_options) = Some table
                \<and> effective_name s' \<in> own_keys table)"
    by (rule reached)
  then obtain table where tb: "d_components (build_document [users_route] example_doc_options) = Some table"
    and k: "''User'' \<in> own_keys table"
    using cs u n i by (auto simp: object_prototype_keys_def)
  have "(\<forall>a \<in> set (document_sites [users_route]). \<forall>b \<in> set (document_sites [users_route]).
          effective_name a = effective_name b \<and> effective_name a \<noteq> []
          \<longrightarrow> nested_calls a = nested_calls b)
       \<and> (\<forall>a \<in> set (document_sites [users_route]).
             effective_name a \<notin> set (inherited_names [users_route] example_doc_options))
       \<longrightarrow> (\<forall>a \<in> set (document_sites [users_route]). effective_name a \<noteq> []
              \<longrightarrow> (\<exists>table. d_components (build_document [users_route] example_doc_options) = Some table
                     \<and> effective_name a \<in> own_keys table))"
    by (rule deep)
  then have k2: "''UserId'' \<in> own_keys table"
    using tb by (simp add: ds n i object_prototype_keys_def)
  have "distinct (map fst table)" using once tb by blast
  with a b tb k k2 show ?thesis by blast
qed

section \<open>Path keys of the generated document\<close>

lemma no_slash_take: "CHR ''/'' \<notin> set cs \<Longrightarrow> takeWhile not_slash cs = cs"
  by (induction cs) auto

lemma no_slash_drop: "CHR ''/'' \<notin> set cs \<Longrightarrow> dropWhile not_slash cs = []"
  by (induction cs) auto

lemma no_slash_take_append: "CHR ''/'' \<notin> set cs \<Longrightarrow> takeWhile not_slash (cs @ CHR ''/'' # rest) = cs"
  by (induction cs) auto

lemma no_slash_drop_append:
  "CHR ''/'' \<notin> set cs \<Longrightarrow> dropWhile not_slash (cs @ CHR ''/'' # rest) = CHR ''/'' # rest"
  by (induction cs) auto

lemma rewrite_segment: "CHR ''/'' \<notin> set seg \<Longrightarrow> expressPathToOpenApiPath seg = brace_segment seg"
proof (induction seg)
  case Nil
  then show ?case by (simp add: brace_segment_def)
next
  case (Cons c cs)
  have ns: "takeWhile not_slash cs = cs" "dropWhile not_slash cs = []"
    using Cons.prems by (simp_all add: no_slash_take no_slash_drop)
  show ?case
  proof (cases "c = CHR '':''")
    case True
    then show ?thesis by (simp add: ns brace_segment_def)
  next
    case False
    have "expressPathToOpenApiPath (c # cs) = c # brace_segment cs"
      using False Cons by simp
    also have "\<dots> = brace_segment (c # cs)"
    proof (cases "dropWhile (\<lambda>c. c \<noteq> CHR '':'') cs")
      case Nil
      show ?thesis by (simp add: brace_segment_def False Nil)
    next
      case (Cons x name)
      show ?thesis by (simp add: brace_segment_def False Cons)
    qed
    finally show ?thesis .
  qed
qed

lemma rewrite_across_slash:
  "CHR ''/'' \<notin> set seg \<Longrightarrow>
     expressPathToOpenApiPath (seg @ CHR ''/'' # rest)
       = expressPathToOpenApiPath seg @ CHR ''/'' # expressPathToOpenApiPath rest"
proof (induction seg)
  case Nil
  then show ?case by simp
next
  case (Cons c cs)
  have ns: "takeWhile not_slash (cs @ CHR ''/'' # rest) = cs"
    "dropWhile not_slash (cs @ CHR ''/'' # rest) = CHR ''/'' # rest"
    "takeWhile not_slash cs = cs" "dropWhile not_slash cs = []"
    using Cons.prems
    by (simp_all add: no_slash_take no_slash_drop no_slash_take_append no_slash_drop_append)
  show ?case
  proof (cases "c = CHR '':'' \<and> cs \<noteq> []")
    case True
    then show ?thesis by (simp add: ns)
  next
    case False
    then show ?thesis using Cons by (auto simp: ns)
  qed
qed

lemma rewrite_is_brace_form: "expressPathToOpenApiPath p = brace_form p"
proof (induction p rule: brace_form.induct)
  case (1 p)
  show ?case
  proof (cases "dropWhile not_slash p")
    case Nil
    then have "CHR ''/'' \<notin> set p" by (auto simp: dropWhile_eq_Nil_conv)
    then have "expressPathToOpenApiPath p = brace_segment p" by (rule rewrite_segment)
    moreover have "brace_form p = brace_segment p"
      by (subst brace_form.simps) (simp add: Nil)
    ultimately show ?thesis by simp
  next
    case (Cons c rest)
    have c: "c = CHR ''/''" using Cons hd_dropWhile [of not_slash p] by force
    have p: "p = takeWhile not_slash p @ CHR ''/'' # rest"
      using Cons c takeWhile_dropWhile_id [of not_slash p] by simp
    have ns: "CHR ''/'' \<notin> set (takeWhile not_slash p)"
      using set_takeWhileD by fastforce
    have "expressPathToOpenApiPath p =
            expressPathToOpenApiPath (takeWhile not_slash p) @ CHR ''/'' # expressPathToOpenApiPath rest"
      using rewrite_across_slash [OF ns, of rest] p by simp
    also have "\<dots> = brace_segment (takeWhile not_slash p) @ CHR ''/'' # brace_form rest"
      using rewrite_segment [OF ns] 1 [OF Cons] by simp
    finally show ?thesis
      using Cons by (subst brace_form.simps) simp
  qed
qed

text \<open>
  C7. The rewriting is what the claim says (\<open>rewrite_is_brace_form\<close>), and every route
  whose key is not a name that plain objects inherit is filed under it
  (\<open>route_filed_under_rewritten_path\<close>). A route whose key is such a name, \<open>toString\<close> for
  one, gets no key: \<open>paths[path]\<close> finds the inherited function, so no item is created, and
  the operation is assigned to a property of that function.
\<close>

theorem missing_path_key_evaluation:
  "path_key example_doc_options toString_route = ''toString''
   \<and> d_paths (build_document [toString_route] example_doc_options) = []"
  by (simp add: toString_route_def echo_route_def example_doc_options_def path_key_def express_path_def
        build_document_def route_step_def route_operation_def assign_operation_def
        ensure_path_item_def js_has_def own_keys_def js_set_def object_prototype_keys_def
        buildParameters_def)

end
